theory Spec2Isabelle
  imports Main "HOL-Library.Word"
begin

unbundle bit_operations_syntax

section \<open>Bytes, runes and the UTF-8 decoder used by the line store\<close>

text \<open>
  A Go \<^verbatim>\<open>byte\<close> is an 8-bit word and a \<^verbatim>\<open>rune\<close> a 32-bit one. A Go \<^verbatim>\<open>string\<close> and a
  \<^verbatim>\<open>[]byte\<close> are both byte sequences; the conversions between them copy the bytes.
\<close>

type_synonym byte = "8 word"
type_synonym rune = "32 word"

definition LF :: byte where
  "LF = 0x0A"

definition CR :: byte where
  "CR = 0x0D"

definition RuneError :: rune where
  "RuneError = 0xFFFD"

text \<open>
  \<^verbatim>\<open>unicode/utf8\<close> of the Go standard library: the table \<^verbatim>\<open>first\<close> classifies a leading
  byte (\<^verbatim>\<open>as = 0xF0\<close> is ASCII, \<^verbatim>\<open>xx = 0xF1\<close> is invalid, otherwise the low three bits are
  the length of the sequence and the high four bits index \<^verbatim>\<open>acceptRanges\<close>, the range
  allowed for the second byte).
\<close>

definition first_tab :: "byte \<Rightarrow> byte" where
  "first_tab c =
     (if c < 0x80 then 0xF0
      else if c < 0xC2 then 0xF1
      else if c < 0xE0 then 0x02
      else if c = 0xE0 then 0x13
      else if c < 0xED then 0x03
      else if c = 0xED then 0x23
      else if c < 0xF0 then 0x03
      else if c = 0xF0 then 0x34
      else if c < 0xF4 then 0x04
      else if c = 0xF4 then 0x44
      else 0xF1)"

definition acceptRanges :: "byte \<Rightarrow> byte \<times> byte" where
  "acceptRanges k =
     (if k = 0 then (0x80, 0xBF)
      else if k = 1 then (0xA0, 0xBF)
      else if k = 2 then (0x80, 0x9F)
      else if k = 3 then (0x90, 0xBF)
      else if k = 4 then (0x80, 0x8F)
      else (0, 0))"

text \<open>
  \<^verbatim>\<open>utf8.DecodeRune(p)\<close>: the first rune of \<^verbatim>\<open>p\<close> and its width in bytes. An empty input
  gives width 0; an invalid or truncated encoding gives \<^verbatim>\<open>RuneError\<close> with width 1.
\<close>

definition DecodeRune :: "byte list \<Rightarrow> rune \<times> nat" where
  "DecodeRune p =
     (case p of
        [] \<Rightarrow> (RuneError, 0)
      | p0 # _ \<Rightarrow>
          let x = first_tab p0 in
          if x \<ge> 0xF0 then ((if x = 0xF0 then ucast p0 else RuneError), 1)
          else
            let sz = unat (x AND 7);
                lo = fst (acceptRanges (drop_bit 4 x));
                hi = snd (acceptRanges (drop_bit 4 x))
            in
            if length p < sz then (RuneError, 1)
            else
              let b1 = p ! 1 in
              if b1 < lo \<or> hi < b1 then (RuneError, 1)
              else if sz \<le> 2 then
                (push_bit 6 (ucast (p0 AND 0x1F)) OR ucast (b1 AND 0x3F), 2)
              else
                let b2 = p ! 2 in
                if b2 < 0x80 \<or> 0xBF < b2 then (RuneError, 1)
                else if sz \<le> 3 then
                  (push_bit 12 (ucast (p0 AND 0x0F)) OR push_bit 6 (ucast (b1 AND 0x3F))
                     OR ucast (b2 AND 0x3F), 3)
                else
                  let b3 = p ! 3 in
                  if b3 < 0x80 \<or> 0xBF < b3 then (RuneError, 1)
                  else
                    (push_bit 18 (ucast (p0 AND 0x07)) OR push_bit 12 (ucast (b1 AND 0x3F))
                       OR push_bit 6 (ucast (b2 AND 0x3F)) OR ucast (b3 AND 0x3F), 4))"

text \<open>
  The body of the loop of \<^verbatim>\<open>utf8.RuneCount\<close>: by how many bytes the index advances
  from the front of a non-empty remainder \<^verbatim>\<open>p\<close>.
\<close>

definition RuneCount_step :: "byte list \<Rightarrow> nat" where
  "RuneCount_step p =
     (let c = hd p in
      if c < 0x80 then 1
      else
        let x = first_tab c in
        if x = 0xF1 then 1
        else
          let size = unat (x AND 7) in
          if size > length p then 1
          else
            let lo = fst (acceptRanges (drop_bit 4 x));
                hi = snd (acceptRanges (drop_bit 4 x))
            in
            if p ! 1 < lo \<or> hi < p ! 1 then 1
            else if size = 2 then 2
            else if p ! 2 < 0x80 \<or> 0xBF < p ! 2 then 1
            else if size = 3 then 3
            else if p ! 3 < 0x80 \<or> 0xBF < p ! 3 then 1
            else size)"

text \<open>
  Both decoders advance by at least one byte on a non-empty input and by the same number of
  bytes; the loops below terminate for that reason.
\<close>

lemma first_tab_values:
  "(c < 0x80 \<and> first_tab c = 0xF0) \<or>
   (\<not> c < 0x80 \<and> first_tab c \<in> {0xF1, 0x02, 0x13, 0x03, 0x23, 0x34, 0x04, 0x44})"
  by (simp add: first_tab_def)

lemma first_tab_cases:
  obtains (ascii) "c < 0x80" "first_tab c = 0xF0"
  | (invalid) "\<not> c < 0x80" "first_tab c = 0xF1"
  | (two) "\<not> c < 0x80" "first_tab c \<noteq> 0xF1" "\<not> first_tab c \<ge> 0xF0" "unat (first_tab c AND 7) = 2"
  | (three) "\<not> c < 0x80" "first_tab c \<noteq> 0xF1" "\<not> first_tab c \<ge> 0xF0" "unat (first_tab c AND 7) = 3"
  | (four) "\<not> c < 0x80" "first_tab c \<noteq> 0xF1" "\<not> first_tab c \<ge> 0xF0" "unat (first_tab c AND 7) = 4"
proof -
  consider "c < 0x80" "first_tab c = 0xF0" | "\<not> c < 0x80" "first_tab c = 0xF1"
    | "\<not> c < 0x80" "first_tab c = 0x02" | "\<not> c < 0x80" "first_tab c = 0x13"
    | "\<not> c < 0x80" "first_tab c = 0x03" | "\<not> c < 0x80" "first_tab c = 0x23"
    | "\<not> c < 0x80" "first_tab c = 0x34" | "\<not> c < 0x80" "first_tab c = 0x04"
    | "\<not> c < 0x80" "first_tab c = 0x44"
    using first_tab_values [of c] by auto
  then show thesis
  proof cases
    case 1 then show ?thesis by (rule ascii)
  next
    case 2 then show ?thesis by (rule invalid)
  next
    case 3 then show ?thesis by (intro two) simp_all
  next
    case 4 then show ?thesis by (intro three) simp_all
  next
    case 5 then show ?thesis by (intro three) simp_all
  next
    case 6 then show ?thesis by (intro three) simp_all
  next
    case 7 then show ?thesis by (intro four) simp_all
  next
    case 8 then show ?thesis by (intro four) simp_all
  next
    case 9 then show ?thesis by (intro four) simp_all
  qed
qed

lemma RuneCount_step_pos: "1 \<le> RuneCount_step p"
  by (cases "hd p" rule: first_tab_cases) (simp_all add: RuneCount_step_def Let_def)

lemma DecodeRune_size: "p \<noteq> [] \<Longrightarrow> snd (DecodeRune p) = RuneCount_step p"
  by (cases "hd p" rule: first_tab_cases; cases p)
     (simp_all add: RuneCount_step_def DecodeRune_def Let_def)

text \<open>
  \<^verbatim>\<open>utf8.RuneCount(p)\<close>: the loop over the index \<^verbatim>\<open>i\<close>, written over the remainder
  \<^verbatim>\<open>p[i:]\<close>. Every iteration counts one rune and advances by at least one byte.
\<close>

function RuneCount :: "byte list \<Rightarrow> nat" where
  "RuneCount p = (if p = [] then 0 else 1 + RuneCount (drop (RuneCount_step p) p))"
  by pat_completeness auto
termination
proof (relation "measure length")
  show "wf (measure length)" by simp
next
  fix p :: "byte list"
  assume "p \<noteq> []"
  moreover have "1 \<le> RuneCount_step p" by (rule RuneCount_step_pos)
  ultimately show "(drop (RuneCount_step p) p, p) \<in> measure length"
    by (cases p) auto
qed

declare RuneCount.simps [simp del]

subsection \<open>runeToByteIndex\<close>

text \<open>
  The loop of \<^verbatim>\<open>runeToByteIndex\<close>: \<^verbatim>\<open>txt\<close> is the remainder still to decode, \<^verbatim>\<open>count\<close> the
  bytes consumed and \<^verbatim>\<open>i\<close> the runes consumed. The loop leaves when the remainder is empty
  or when \<^verbatim>\<open>i\<close> reaches \<^verbatim>\<open>n\<close>.
\<close>

function runeToByteIndex_loop :: "int \<Rightarrow> byte list \<Rightarrow> int \<Rightarrow> int \<Rightarrow> int" where
  "runeToByteIndex_loop n txt count i =
     (if txt = [] then count
      else
        let size = snd (DecodeRune txt);
            txt' = drop size txt;
            count' = count + int size;
            i' = i + 1
        in if i' = n then count' else runeToByteIndex_loop n txt' count' i')"
  by pat_completeness auto
termination
proof (relation "measure (\<lambda>(n, txt, count, i). length txt)")
  show "wf (measure (\<lambda>(n :: int, txt :: byte list, count :: int, i :: int). length txt))"
    by simp
next
  fix n :: int and bs :: "byte list" and count :: int and i :: int
    and x xa xb xc
  assume "bs \<noteq> []" and x: "x = snd (DecodeRune bs)" and xa: "xa = drop x bs"
  then have "1 \<le> x"
    using RuneCount_step_pos [of bs] by (simp add: DecodeRune_size)
  with \<open>bs \<noteq> []\<close> xa
  show "((n, xa, xb, xc), (n, bs, count, i)) \<in> measure (\<lambda>(n, txt, count, i). length txt)"
    by (cases bs) auto
qed

declare runeToByteIndex_loop.simps [simp del]

definition runeToByteIndex :: "int \<Rightarrow> byte list \<Rightarrow> int" where
  "runeToByteIndex n txt = (if n = 0 then 0 else runeToByteIndex_loop n txt 0 0)"

section \<open>The line store\<close>

text \<open>
  The highlighter's per-line state (\<^verbatim>\<open>highlight.State\<close>) and match cache
  (\<^verbatim>\<open>highlight.LineMatch\<close>) are opaque to the line store; \<^verbatim>\<open>nil\<close> is \<open>None\<close>.
\<close>

typedecl State
typedecl LineMatch

record Line =
  data :: "byte list"
  state :: "State option"
  match :: "LineMatch option"
  rehighlight :: bool

record LineArray =
  lines :: "Line list"

text \<open>A location: \<^verbatim>\<open>X\<close> is the column, \<^verbatim>\<open>Y\<close> the line index; both are Go \<^verbatim>\<open>int\<close>s.\<close>

record Loc =
  X :: int
  Y :: int

text \<open>
  A slice expression or an index out of range panics. \<^verbatim>\<open>insert\<close> and \<^verbatim>\<open>Split\<close> call each
  other; the depth of these calls is bounded in the model by a counter, and \<open>OutOfFuel\<close>
  reports that the bound was too small.
\<close>

datatype error = Panic | OutOfFuel

definition line_ok :: "LineArray \<Rightarrow> int \<Rightarrow> bool" where
  "line_ok la y \<longleftrightarrow> 0 \<le> y \<and> y < int (length (lines la))"

definition line_at :: "LineArray \<Rightarrow> int \<Rightarrow> Line" where
  "line_at la y = lines la ! nat y"

definition set_line :: "LineArray \<Rightarrow> int \<Rightarrow> Line \<Rightarrow> LineArray" where
  "set_line la y l = la\<lparr>lines := (lines la)[nat y := l]\<rparr>"

text \<open>
  \<^verbatim>\<open>NewlineBelow(y)\<close>: append a line, shift the lines after \<^verbatim>\<open>y\<close> down by one, and put an
  empty line that carries the state of line \<^verbatim>\<open>y\<close> at \<^verbatim>\<open>y+1\<close>.
\<close>

definition NewlineBelow :: "LineArray \<Rightarrow> int \<Rightarrow> error + LineArray" where
  "NewlineBelow la y =
     (if line_ok la y then
        Inr (la\<lparr>lines := take (nat (y + 1)) (lines la)
               @ [\<lparr>data = [], state = state (line_at la y), match = None, rehighlight = False\<rparr>]
               @ drop (nat (y + 1)) (lines la)\<rparr>)
      else Inl Panic)"

text \<open>\<^verbatim>\<open>insertByte(pos, value)\<close>: \<^verbatim>\<open>pos.X\<close> is a byte offset into line \<^verbatim>\<open>pos.Y\<close>.\<close>

definition insertByte :: "LineArray \<Rightarrow> Loc \<Rightarrow> byte \<Rightarrow> error + LineArray" where
  "insertByte la pos v =
     (if line_ok la (Y pos) \<and> 0 \<le> X pos \<and> X pos \<le> int (length (data (line_at la (Y pos)))) then
        let l = line_at la (Y pos) in
        Inr (set_line la (Y pos)
               (l\<lparr>data := take (nat (X pos)) (data l) @ [v] @ drop (nat (X pos)) (data l)\<rparr>))
      else Inl Panic)"

text \<open>
  \<^verbatim>\<open>DeleteToEnd(pos)\<close> keeps \<^verbatim>\<open>data[:pos.X]\<close>. Go lets a slice be extended up to its capacity;
  every caller passes an offset of at most the length, and the model fails beyond the length.
\<close>

definition DeleteToEnd :: "LineArray \<Rightarrow> Loc \<Rightarrow> error + LineArray" where
  "DeleteToEnd la pos =
     (if line_ok la (Y pos) \<and> 0 \<le> X pos \<and> X pos \<le> int (length (data (line_at la (Y pos)))) then
        let l = line_at la (Y pos) in
        Inr (set_line la (Y pos) (l\<lparr>data := take (nat (X pos)) (data l)\<rparr>))
      else Inl Panic)"

text \<open>\<^verbatim>\<open>DeleteFromStart(pos)\<close> keeps \<^verbatim>\<open>data[pos.X+1:]\<close>.\<close>

definition DeleteFromStart :: "LineArray \<Rightarrow> Loc \<Rightarrow> error + LineArray" where
  "DeleteFromStart la pos =
     (if line_ok la (Y pos) \<and> 0 \<le> X pos + 1 \<and> X pos + 1 \<le> int (length (data (line_at la (Y pos)))) then
        let l = line_at la (Y pos) in
        Inr (set_line la (Y pos) (l\<lparr>data := drop (nat (X pos + 1)) (data l)\<rparr>))
      else Inl Panic)"

text \<open>\<^verbatim>\<open>DeleteLine(y)\<close> moves the lines after \<^verbatim>\<open>y\<close> up by one and shortens the slice.\<close>

definition DeleteLine :: "LineArray \<Rightarrow> int \<Rightarrow> error + LineArray" where
  "DeleteLine la y =
     (if line_ok la y then
        Inr (la\<lparr>lines := take (nat y) (lines la) @ drop (nat (y + 1)) (lines la)\<rparr>)
      else Inl Panic)"

text \<open>
  \<^verbatim>\<open>insert\<close> translates the column to a byte offset and runs its loop over \<^verbatim>\<open>value\<close>
  (\<open>insert_loop\<close>, with the running \<^verbatim>\<open>x\<close> and \<^verbatim>\<open>y\<close>); a line feed calls \<^verbatim>\<open>Split\<close>, which
  calls \<^verbatim>\<open>insert\<close> for the tail of the line. The first argument bounds the depth of the
  calls from \<^verbatim>\<open>Split\<close> to \<^verbatim>\<open>insert\<close>.
\<close>

fun insert_loop :: "nat \<Rightarrow> LineArray \<Rightarrow> int \<Rightarrow> int \<Rightarrow> byte list \<Rightarrow> error + LineArray"
  and insert :: "nat \<Rightarrow> LineArray \<Rightarrow> Loc \<Rightarrow> byte list \<Rightarrow> error + LineArray"
  and Split :: "nat \<Rightarrow> LineArray \<Rightarrow> Loc \<Rightarrow> error + LineArray"
where
  "insert_loop d la x y [] = Inr la"
| "insert_loop d la x y (v # vs) =
     (if v = LF then
        (case Split d la \<lparr>X = x, Y = y\<rparr> of
           Inl e \<Rightarrow> Inl e
         | Inr la' \<Rightarrow> insert_loop d la' 0 (y + 1) vs)
      else
        (case insertByte la \<lparr>X = x, Y = y\<rparr> v of
           Inl e \<Rightarrow> Inl e
         | Inr la' \<Rightarrow> insert_loop d la' (x + 1) y vs))"
| "insert d la pos value =
     (if line_ok la (Y pos) then
        insert_loop d la (runeToByteIndex (X pos) (data (line_at la (Y pos)))) (Y pos) value
      else Inl Panic)"
| "Split 0 la pos = Inl OutOfFuel"
| "Split (Suc d) la pos =
     (case NewlineBelow la (Y pos) of
        Inl e \<Rightarrow> Inl e
      | Inr la1 \<Rightarrow>
          if 0 \<le> X pos \<and> X pos \<le> int (length (data (line_at la1 (Y pos)))) then
            (case insert d la1 \<lparr>X = 0, Y = Y pos + 1\<rparr> (drop (nat (X pos)) (data (line_at la1 (Y pos)))) of
               Inl e \<Rightarrow> Inl e
             | Inr la2 \<Rightarrow>
                 let la3 = set_line la2 (Y pos + 1) ((line_at la2 (Y pos + 1))\<lparr>state := state (line_at la2 (Y pos))\<rparr>);
                     la4 = set_line la3 (Y pos) ((line_at la3 (Y pos))\<lparr>state := None\<rparr>);
                     la5 = set_line la4 (Y pos) ((line_at la4 (Y pos))\<lparr>match := None\<rparr>);
                     la6 = set_line la5 (Y pos + 1) ((line_at la5 (Y pos + 1))\<lparr>match := None\<rparr>);
                     la7 = set_line la6 (Y pos) ((line_at la6 (Y pos))\<lparr>rehighlight := True\<rparr>)
                 in DeleteToEnd la7 \<lparr>X = X pos, Y = Y pos\<rparr>)
          else Inl Panic)"

declare insert.simps [simp del] Split.simps [simp del]

text \<open>
  \<^verbatim>\<open>JoinLines(a, b)\<close> passes the byte length of line \<^verbatim>\<open>a\<close> as the column to \<^verbatim>\<open>insert\<close> and
  then deletes line \<^verbatim>\<open>b\<close>.
\<close>

definition JoinLines :: "nat \<Rightarrow> LineArray \<Rightarrow> int \<Rightarrow> int \<Rightarrow> error + LineArray" where
  "JoinLines d la a b =
     (if line_ok la a \<and> line_ok la b then
        (case insert d la \<lparr>X = int (length (data (line_at la a))), Y = a\<rparr> (data (line_at la b)) of
           Inl e \<Rightarrow> Inl e
         | Inr la' \<Rightarrow> DeleteLine la' b)
      else Inl Panic)"

text \<open>
  \<^verbatim>\<open>Substr(start, end)\<close>: the text between two locations. The slice \<^verbatim>\<open>data[startX:endX]\<close>
  panics when \<^verbatim>\<open>startX > endX\<close>.
\<close>

definition Substr :: "LineArray \<Rightarrow> Loc \<Rightarrow> Loc \<Rightarrow> error + byte list" where
  "Substr la start end =
     (if line_ok la (Y start) \<and> line_ok la (Y end) then
        let startX = runeToByteIndex (X start) (data (line_at la (Y start)));
            endX = runeToByteIndex (X end) (data (line_at la (Y end)))
        in
        if Y start = Y end then
          (if startX \<le> endX then
             Inr (take (nat endX - nat startX) (drop (nat startX) (data (line_at la (Y start)))))
           else Inl Panic)
        else
          Inr (drop (nat startX) (data (line_at la (Y start))) @ [LF]
               @ concat (map (\<lambda>i. data (line_at la i) @ [LF]) [Y start + 1 .. Y end - 1])
               @ take (nat endX) (data (line_at la (Y end))))
      else Inl Panic)"

text \<open>
  The loop of \<^verbatim>\<open>remove\<close> over \<^verbatim>\<open>i\<close> from \<^verbatim>\<open>start.Y + 1\<close> to \<^verbatim>\<open>end.Y - 1\<close>: every iteration
  deletes the line below the start line.
\<close>

function remove_loop :: "LineArray \<Rightarrow> int \<Rightarrow> int \<Rightarrow> int \<Rightarrow> error + LineArray" where
  "remove_loop la sy ey i =
     (if i \<le> ey - 1 then
        (case DeleteLine la (sy + 1) of
           Inl e \<Rightarrow> Inl e
         | Inr la' \<Rightarrow> remove_loop la' sy ey (i + 1))
      else Inr la)"
  by pat_completeness auto
termination
  by (relation "measure (\<lambda>(la, sy, ey, i). nat (ey - i))") auto

declare remove_loop.simps [simp del]

text \<open>\<^verbatim>\<open>remove(start, end)\<close> returns the removed text together with the new store.\<close>

definition remove :: "nat \<Rightarrow> LineArray \<Rightarrow> Loc \<Rightarrow> Loc \<Rightarrow> error + (byte list \<times> LineArray)" where
  "remove d la start end =
     (case Substr la start end of
        Inl e \<Rightarrow> Inl e
      | Inr sub \<Rightarrow>
          let startX = runeToByteIndex (X start) (data (line_at la (Y start)));
              endX = runeToByteIndex (X end) (data (line_at la (Y end)))
          in
          if Y start = Y end then
            let l = line_at la (Y start) in
            Inr (sub, set_line la (Y start)
                        (l\<lparr>data := take (nat startX) (data l) @ drop (nat endX) (data l)\<rparr>))
          else
            (case remove_loop la (Y start) (Y end) (Y start + 1) of
               Inl e \<Rightarrow> Inl e
             | Inr la1 \<Rightarrow>
                 (case DeleteToEnd la1 \<lparr>X = startX, Y = Y start\<rparr> of
                    Inl e \<Rightarrow> Inl e
                  | Inr la2 \<Rightarrow>
                      (case DeleteFromStart la2 \<lparr>X = endX - 1, Y = Y start + 1\<rparr> of
                         Inl e \<Rightarrow> Inl e
                       | Inr la3 \<Rightarrow>
                           (case JoinLines d la3 (Y start) (Y start + 1) of
                              Inl e \<Rightarrow> Inl e
                            | Inr la4 \<Rightarrow> Inr (sub, la4))))))"

subsection \<open>Construction and serialisation\<close>

text \<open>
  The reader: the bytes it delivers and how it ends, with \<^verbatim>\<open>io.EOF\<close> or with another
  error. \<^verbatim>\<open>ReadBytes('\n')\<close> returns the bytes up to and including the first line feed,
  or, when there is none, the remaining bytes and the error that ended the stream.
\<close>

datatype read_end = EOF | ReadError

type_synonym reader = "byte list \<times> read_end"

definition ReadBytes :: "reader \<Rightarrow> (byte list \<times> read_end option) \<times> reader" where
  "ReadBytes br =
     (let rest = fst br in
      if LF \<in> set rest then
        ((takeWhile (\<lambda>c. c \<noteq> LF) rest @ [LF], None), (tl (dropWhile (\<lambda>c. c \<noteq> LF) rest), snd br))
      else ((rest, Some (snd br)), ([], snd br)))"

definition new_Line :: "byte list \<Rightarrow> Line" where
  "new_Line bs = \<lparr>data = bs, state = None, match = None, rehighlight = False\<rparr>"

text \<open>
  The loop of \<^verbatim>\<open>NewLineArray\<close>. The counters \<^verbatim>\<open>n\<close> and \<^verbatim>\<open>loaded\<close> and the size hint only
  choose the capacity reserved for the slice of lines, which a list does not have.
\<close>

function NewLineArray_loop :: "Line list \<Rightarrow> reader \<Rightarrow> Line list" where
  "NewLineArray_loop ls br =
     (case ReadBytes br of
        ((bs, Some err), br') \<Rightarrow> (if err = EOF then ls @ [new_Line bs] else ls)
      | ((bs, None), br') \<Rightarrow> NewLineArray_loop (ls @ [new_Line (take (length bs - 1) bs)]) br')"
  by pat_completeness auto
termination
proof (relation "measure (\<lambda>(ls, br). length (fst br))")
  show "wf (measure (\<lambda>(ls :: Line list, br :: reader). length (fst br)))" by simp
next
  fix ls :: "Line list" and br br' :: reader and r bs e
  assume "(r, br') = ReadBytes br" "(bs, e) = r" "e = None"
  then have "LF \<in> set (fst br)" and br': "br' = (tl (dropWhile (\<lambda>c. c \<noteq> LF) (fst br)), snd br)"
    by (auto simp: ReadBytes_def Let_def split: if_splits)
  then have "dropWhile (\<lambda>c. c \<noteq> LF) (fst br) \<noteq> []" by simp
  then have "length (tl (dropWhile (\<lambda>c. c \<noteq> LF) (fst br))) < length (dropWhile (\<lambda>c. c \<noteq> LF) (fst br))"
    by (cases "dropWhile (\<lambda>c. c \<noteq> LF) (fst br)") simp_all
  also have "\<dots> \<le> length (fst br)" by (rule length_dropWhile_le)
  finally show "((ls @ [new_Line (take (length bs - 1) bs)], br'), (ls, br))
      \<in> measure (\<lambda>(ls, br). length (fst br))"
    using br' by simp
qed

declare NewLineArray_loop.simps [simp del]

text \<open>\<^verbatim>\<open>NewLineArray(size, reader)\<close>; a \<^verbatim>\<open>nil\<close> reader is \<open>None\<close>, and \<open>size_hint\<close> is the size.\<close>

definition NewLineArray :: "int \<Rightarrow> reader option \<Rightarrow> LineArray" where
  "NewLineArray size_hint reader =
     (case reader of
        None \<Rightarrow> \<lparr>lines = [new_Line []]\<rparr>
      | Some br \<Rightarrow> \<lparr>lines = NewLineArray_loop [] br\<rparr>)"

text \<open>\<^verbatim>\<open>String()\<close>: the lines, with a line feed after every line but the last.\<close>

definition String :: "LineArray \<Rightarrow> byte list" where
  "String la =
     concat (map (\<lambda>(i, l). data l @ (if int i \<noteq> int (length (lines la)) - 1 then [LF] else []))
       (enumerate 0 (lines la)))"

subsection \<open>The invariant of the line store\<close>

text \<open>No stored line contains a line feed.\<close>

definition no_LF :: "LineArray \<Rightarrow> bool" where
  "no_LF la \<longleftrightarrow> (\<forall>l \<in> set (lines la). LF \<notin> set (data l))"

text \<open>
  A valid location of a store: the line exists and the column is between 0 and the number
  of runes of the line, both included.
\<close>

definition valid_loc :: "LineArray \<Rightarrow> Loc \<Rightarrow> bool" where
  "valid_loc la pos \<longleftrightarrow>
     line_ok la (Y pos) \<and> 0 \<le> X pos \<and> X pos \<le> int (RuneCount (data (line_at la (Y pos))))"

section \<open>The buffer\<close>

text \<open>
  The fields of \<^verbatim>\<open>Buffer\<close> that the operations below read or write: the embedded
  \<^verbatim>\<open>*LineArray\<close>, the modified flag, the cached number of lines, the value of
  \<^verbatim>\<open>Settings["fileformat"]\<close> and the password.
\<close>

record Buffer =
  LineArray :: LineArray
  IsModified :: bool
  NumLines :: int
  fileformat :: string
  Password :: string

text \<open>\<^verbatim>\<open>Update\<close> refreshes the cached number of lines.\<close>

definition Update :: "Buffer \<Rightarrow> Buffer" where
  "Update b = b\<lparr>NumLines := int (length (lines (LineArray b)))\<rparr>"

text \<open>\<^verbatim>\<open>Buffer.insert\<close> and \<^verbatim>\<open>Buffer.remove\<close>: set the flag, change the lines, update.\<close>

definition Buffer_insert :: "nat \<Rightarrow> Buffer \<Rightarrow> Loc \<Rightarrow> byte list \<Rightarrow> error + Buffer" where
  "Buffer_insert d b pos value =
     (case insert d (LineArray b) pos value of
        Inl e \<Rightarrow> Inl e
      | Inr la' \<Rightarrow> Inr (Update (b\<lparr>IsModified := True, LineArray := la'\<rparr>)))"

definition Buffer_remove :: "nat \<Rightarrow> Buffer \<Rightarrow> Loc \<Rightarrow> Loc \<Rightarrow> error + (byte list \<times> Buffer)" where
  "Buffer_remove d b start end =
     (case remove d (LineArray b) start end of
        Inl e \<Rightarrow> Inl e
      | Inr (sub, la') \<Rightarrow> Inr (sub, Update (b\<lparr>IsModified := True, LineArray := la'\<rparr>)))"

definition Start :: "Buffer \<Rightarrow> Loc" where
  "Start b = \<lparr>X = 0, Y = 0\<rparr>"

text \<open>\<^verbatim>\<open>End\<close> reads the line at \<^verbatim>\<open>NumLines - 1\<close>.\<close>

definition End :: "Buffer \<Rightarrow> error + Loc" where
  "End b =
     (if line_ok (LineArray b) (NumLines b - 1) then
        Inr \<lparr>X = int (RuneCount (data (line_at (LineArray b) (NumLines b - 1)))), Y = NumLines b - 1\<rparr>
      else Inl Panic)"

text \<open>
  \<^verbatim>\<open>LineBytes(n)\<close> and \<^verbatim>\<open>Line(n)\<close> test \<^verbatim>\<open>n >= len(b.lines)\<close> and index the lines otherwise; a
  negative index panics.
\<close>

definition LineBytes :: "Buffer \<Rightarrow> int \<Rightarrow> error + byte list" where
  "LineBytes b n =
     (if n \<ge> int (length (lines (LineArray b))) then Inr []
      else if n < 0 then Inl Panic
      else Inr (data (line_at (LineArray b) n)))"

definition Line :: "Buffer \<Rightarrow> int \<Rightarrow> error + byte list" where
  "Line b n =
     (if n \<ge> int (length (lines (LineArray b))) then Inr []
      else if n < 0 then Inl Panic
      else Inr (data (line_at (LineArray b) n)))"

text \<open>
  \<^verbatim>\<open>MoveLinesUp\<close> and \<^verbatim>\<open>MoveLinesDown\<close> edit through \<^verbatim>\<open>b.Insert\<close> and \<^verbatim>\<open>b.Remove\<close> of the
  event handler, which is not among the sources; the two are parameters here.
\<close>

definition MoveLinesUp ::
  "(Buffer \<Rightarrow> Loc \<Rightarrow> byte list \<Rightarrow> error + Buffer) \<Rightarrow> (Buffer \<Rightarrow> Loc \<Rightarrow> Loc \<Rightarrow> error + Buffer) \<Rightarrow>
   Buffer \<Rightarrow> int \<Rightarrow> int \<Rightarrow> error + Buffer" where
  "MoveLinesUp Insert Remove b start end =
     (if start < 1 \<or> start \<ge> end \<or> end > int (length (lines (LineArray b))) then Inr b
      else
        (case Line b (start - 1) of
           Inl e \<Rightarrow> Inl e
         | Inr ln \<Rightarrow>
             (case
                (if end = int (length (lines (LineArray b))) then
                   Insert b \<lparr>X = int (RuneCount (data (line_at (LineArray b) (end - 1)))), Y = end - 1\<rparr>
                     ([LF] @ ln)
                 else Insert b \<lparr>X = 0, Y = end\<rparr> (ln @ [LF]))
              of
                Inl e \<Rightarrow> Inl e
              | Inr b1 \<Rightarrow> Remove b1 \<lparr>X = 0, Y = start - 1\<rparr> \<lparr>X = 0, Y = start\<rparr>)))"

definition MoveLinesDown ::
  "(Buffer \<Rightarrow> Loc \<Rightarrow> byte list \<Rightarrow> error + Buffer) \<Rightarrow> (Buffer \<Rightarrow> Loc \<Rightarrow> Loc \<Rightarrow> error + Buffer) \<Rightarrow>
   Buffer \<Rightarrow> int \<Rightarrow> int \<Rightarrow> error + Buffer" where
  "MoveLinesDown Insert Remove b start end =
     (if start < 0 \<or> start \<ge> end \<or> end \<ge> int (length (lines (LineArray b))) - 1 then Inr b
      else
        (case Line b end of
           Inl e \<Rightarrow> Inl e
         | Inr ln \<Rightarrow>
             (case Insert b \<lparr>X = 0, Y = start\<rparr> (ln @ [LF]) of
                Inl e \<Rightarrow> Inl e
              | Inr b1 \<Rightarrow> Remove b1 \<lparr>X = 0, Y = end + 1\<rparr> \<lparr>X = 0, Y = end + 1 + 1\<rparr>)))"

text \<open>
  \<^verbatim>\<open>Encode(filename)\<close> writes the lines with the separator that \<^verbatim>\<open>Settings["fileformat"]\<close>
  selects. Without a password these bytes are the result; with one they go to the OpenPGP
  library, armored when the file name ends in \<^verbatim>\<open>ExtensionArmorGPG\<close>, a constant that is not
  among the sources and is a parameter here. The result records that call.
\<close>

datatype encoded = Plain "byte list" | SymmetricallyEncrypted bool string "byte list"

definition HasSuffix :: "string \<Rightarrow> string \<Rightarrow> bool" where
  "HasSuffix s suffix \<longleftrightarrow>
     length suffix \<le> length s \<and> drop (length s - length suffix) s = suffix"

definition Encode :: "string \<Rightarrow> Buffer \<Rightarrow> string \<Rightarrow> encoded" where
  "Encode ExtensionArmorGPG b filename =
     (let useCrlf = (fileformat b = ''dos'');
          ls = lines (LineArray b);
          buf = concat (map (\<lambda>(i, l). data l @
                  (if int i \<noteq> int (length ls) - 1 then (if useCrlf then [CR, LF] else [LF]) else []))
                (enumerate 0 ls))
      in if Password b = [] then Plain buf
         else SymmetricallyEncrypted (HasSuffix filename ExtensionArmorGPG) (Password b) buf)"

subsection \<open>Brace matching\<close>

text \<open>
  The conversion \<^verbatim>\<open>[]rune(string(data))\<close> decodes the runes of a line one after the other;
  an invalid byte gives \<^verbatim>\<open>RuneError\<close> and advances by one byte, as \<^verbatim>\<open>utf8.DecodeRune\<close> does.
\<close>

function decode_runes :: "byte list \<Rightarrow> rune list" where
  "decode_runes bs =
     (if bs = [] then []
      else fst (DecodeRune bs) # decode_runes (drop (snd (DecodeRune bs)) bs))"
  by pat_completeness auto
termination
proof (relation "measure length")
  show "wf (measure length)" by simp
next
  fix bs :: "byte list"
  assume "bs \<noteq> []"
  then have "1 \<le> snd (DecodeRune bs)"
    using RuneCount_step_pos [of bs] by (simp add: DecodeRune_size)
  with \<open>bs \<noteq> []\<close> show "(drop (snd (DecodeRune bs)) bs, bs) \<in> measure length"
    by (cases bs) auto
qed

declare decode_runes.simps [simp del]

text \<open>
  Modelled from the spec: \<^verbatim>\<open>toRunes\<close>, the helper that \<^verbatim>\<open>LineRunes\<close> calls, is not among the
  sources. Columns of a location are rune offsets, so it is taken to give the runes of the
  line in order, as the conversion above does.
\<close>

definition toRunes :: "byte list \<Rightarrow> rune list" where
  "toRunes bs = decode_runes bs"

definition LineRunes :: "Buffer \<Rightarrow> int \<Rightarrow> error + rune list" where
  "LineRunes b n =
     (if n \<ge> int (length (lines (LineArray b))) then Inr []
      else if n < 0 then Inl Panic
      else Inr (toRunes (data (line_at (LineArray b) n))))"

text \<open>
  The result of a loop over the columns of one line: the column at which the nesting
  counter came back to zero, or the counter at the end of the line.
\<close>

datatype scan = Found int | Depth int

text \<open>The inner loop of the forward scan, from column \<^verbatim>\<open>x\<close> with counter \<^verbatim>\<open>i\<close>.\<close>

function forward_columns :: "rune \<Rightarrow> rune \<Rightarrow> rune list \<Rightarrow> int \<Rightarrow> int \<Rightarrow> error + scan" where
  "forward_columns open close l x i =
     (if x < int (length l) then
        (if x < 0 then Inl Panic
         else
           let r = l ! nat x in
           if r = open then forward_columns open close l (x + 1) (i + 1)
           else if r = close then
             (if i - 1 = 0 then Inr (Found x) else forward_columns open close l (x + 1) (i - 1))
           else forward_columns open close l (x + 1) i)
      else Inr (Depth i))"
  by pat_completeness auto
termination
  by (relation "measure (\<lambda>(open, close, l, x, i). nat (int (length l) - x))") auto

declare forward_columns.simps [simp del]

text \<open>The inner loop of the backward scan, from column \<^verbatim>\<open>x\<close> down to 0.\<close>

function backward_columns :: "rune \<Rightarrow> rune \<Rightarrow> rune list \<Rightarrow> int \<Rightarrow> int \<Rightarrow> error + scan" where
  "backward_columns open close l x i =
     (if x \<ge> 0 then
        (if x \<ge> int (length l) then Inl Panic
         else
           let r = l ! nat x in
           if r = open then
             (if i - 1 = 0 then Inr (Found x) else backward_columns open close l (x - 1) (i - 1))
           else if r = close then backward_columns open close l (x - 1) (i + 1)
           else backward_columns open close l (x - 1) i)
      else Inr (Depth i))"
  by pat_completeness auto
termination
  by (relation "measure (\<lambda>(open, close, l, x, i). nat (x + 1))") auto

declare backward_columns.simps [simp del]

text \<open>
  The outer loops over the lines: forward from \<^verbatim>\<open>start.Y\<close> while \<^verbatim>\<open>y < b.NumLines\<close>, reading
  the line with \<^verbatim>\<open>LineRunes\<close>; backward from \<^verbatim>\<open>start.Y\<close> down to 0, indexing \<^verbatim>\<open>b.lines\<close>.
\<close>

function forward_lines :: "Buffer \<Rightarrow> rune \<Rightarrow> rune \<Rightarrow> Loc \<Rightarrow> int \<Rightarrow> int \<Rightarrow> error + Loc" where
  "forward_lines b open close start y i =
     (if y < NumLines b then
        (case LineRunes b y of
           Inl e \<Rightarrow> Inl e
         | Inr l \<Rightarrow>
             (case forward_columns open close l (if y = Y start then X start else 0) i of
                Inl e \<Rightarrow> Inl e
              | Inr (Found x) \<Rightarrow> Inr \<lparr>X = x, Y = y\<rparr>
              | Inr (Depth i') \<Rightarrow> forward_lines b open close start (y + 1) i'))
      else Inr start)"
  by pat_completeness auto
termination
  by (relation "measure (\<lambda>(b, open, close, start, y, i). nat (NumLines b - y))") auto

declare forward_lines.simps [simp del]

function backward_lines :: "Buffer \<Rightarrow> rune \<Rightarrow> rune \<Rightarrow> Loc \<Rightarrow> int \<Rightarrow> int \<Rightarrow> error + Loc" where
  "backward_lines b open close start y i =
     (if y \<ge> 0 then
        (if line_ok (LineArray b) y then
           let l = decode_runes (data (line_at (LineArray b) y)) in
           (case backward_columns open close l (if y = Y start then X start else int (length l) - 1) i of
              Inl e \<Rightarrow> Inl e
            | Inr (Found x) \<Rightarrow> Inr \<lparr>X = x, Y = y\<rparr>
            | Inr (Depth i') \<Rightarrow> backward_lines b open close start (y - 1) i')
         else Inl Panic)
      else Inr start)"
  by pat_completeness auto
termination
  by (relation "measure (\<lambda>(b, open, close, start, y, i). nat (y + 1))") auto

declare backward_lines.simps [simp del]

text \<open>
  \<^verbatim>\<open>FindMatchingBrace(braceType, start)\<close>; the pair \<^verbatim>\<open>braceType\<close> holds the opening and the
  closing rune.
\<close>

definition FindMatchingBrace :: "Buffer \<Rightarrow> rune \<times> rune \<Rightarrow> Loc \<Rightarrow> error + Loc" where
  "FindMatchingBrace b braceType start =
     (case LineRunes b (Y start) of
        Inl e \<Rightarrow> Inl e
      | Inr curLine \<Rightarrow>
          if 0 \<le> X start \<and> X start < int (length curLine) then
            let startChar = curLine ! nat (X start) in
            if startChar = fst braceType then
              forward_lines b (fst braceType) (snd braceType) start (Y start) 0
            else if startChar = snd braceType then
              backward_lines b (fst braceType) (snd braceType) start (Y start) 0
            else Inr start
          else Inl Panic)"

section \<open>Auxiliary notions for the proofs\<close>

text \<open>The bytes of a list of lines with a separator between consecutive lines.\<close>

fun join_lines :: "byte list \<Rightarrow> Line list \<Rightarrow> byte list" where
  "join_lines sep [] = []"
| "join_lines sep [l] = data l"
| "join_lines sep (l # l' # ls) = data l @ sep @ join_lines sep (l' # ls)"

text \<open>
  The two scans of \<^verbatim>\<open>FindMatchingBrace\<close> over a sequence of runes in the order in which they
  are visited: the index at which the nesting counter comes back to zero, or the counter at
  the end. \<open>fscan\<close> follows the tests of the forward loop, \<open>bscan\<close> those of the backward
  loop.
\<close>

fun fscan :: "rune \<Rightarrow> rune \<Rightarrow> rune list \<Rightarrow> int \<Rightarrow> nat + int" where
  "fscan opn cls [] i = Inr i"
| "fscan opn cls (r # rs) i =
     (if r = opn then map_sum Suc id (fscan opn cls rs (i + 1))
      else if r = cls then
        (if i - 1 = 0 then Inl 0 else map_sum Suc id (fscan opn cls rs (i - 1)))
      else map_sum Suc id (fscan opn cls rs i))"

fun bscan :: "rune \<Rightarrow> rune \<Rightarrow> rune list \<Rightarrow> int \<Rightarrow> nat + int" where
  "bscan opn cls [] i = Inr i"
| "bscan opn cls (r # rs) i =
     (if r = opn then
        (if i - 1 = 0 then Inl 0 else map_sum Suc id (bscan opn cls rs (i - 1)))
      else if r = cls then map_sum Suc id (bscan opn cls rs (i + 1))
      else map_sum Suc id (bscan opn cls rs i))"

text \<open>
  The nesting depth of a sequence of runes: the number of opening runes minus the number of
  closing runes. The scan from counter \<open>i\<close> stops at index \<open>k\<close> when the rune there is a
  closing one and the depth of the runes up to and including it cancels \<open>i\<close>.
\<close>

definition weight :: "rune \<Rightarrow> rune \<Rightarrow> rune \<Rightarrow> int" where
  "weight opn cls r = (if r = opn then 1 else if r = cls then - 1 else 0)"

definition depth :: "rune \<Rightarrow> rune \<Rightarrow> rune list \<Rightarrow> int" where
  "depth opn cls rs = sum_list (map (weight opn cls) rs)"

definition hit :: "rune \<Rightarrow> rune \<Rightarrow> rune list \<Rightarrow> int \<Rightarrow> nat \<Rightarrow> bool" where
  "hit opn cls rs i k \<longleftrightarrow>
     rs ! k \<noteq> opn \<and> rs ! k = cls \<and> i + depth opn cls (take (Suc k) rs) = 0"

text \<open>
  The runes of the lines of a buffer, and the cells of a list of lines that starts at line
  \<open>y\<close>: every rune with its location, in reading order.
\<close>

definition buffer_runes :: "Buffer \<Rightarrow> rune list list" where
  "buffer_runes b = map (\<lambda>l. decode_runes (data l)) (lines (LineArray b))"

fun cells :: "nat \<Rightarrow> rune list list \<Rightarrow> (Loc \<times> rune) list" where
  "cells y [] = []"
| "cells y (l # ls) = map (\<lambda>x. (\<lparr>X = int x, Y = int y\<rparr>, l ! x)) [0..<length l] @ cells (Suc y) ls"

text \<open>
  A location that holds a rune, the rune it holds, and the runes that the two scans visit
  from it: forward to the end of the buffer, and backward to its beginning.
\<close>

definition cell_ok :: "Buffer \<Rightarrow> Loc \<Rightarrow> bool" where
  "cell_ok b pos \<longleftrightarrow>
     line_ok (LineArray b) (Y pos) \<and> 0 \<le> X pos \<and>
     X pos < int (length (buffer_runes b ! nat (Y pos)))"

definition rune_at :: "Buffer \<Rightarrow> Loc \<Rightarrow> rune" where
  "rune_at b pos = buffer_runes b ! nat (Y pos) ! nat (X pos)"

definition runes_after :: "Buffer \<Rightarrow> Loc \<Rightarrow> rune list" where
  "runes_after b pos =
     drop (nat (X pos)) (buffer_runes b ! nat (Y pos))
     @ concat (drop (Suc (nat (Y pos))) (buffer_runes b))"

definition runes_before :: "Buffer \<Rightarrow> Loc \<Rightarrow> rune list" where
  "runes_before b pos =
     rev (concat (take (nat (Y pos)) (buffer_runes b))
          @ take (Suc (nat (X pos))) (buffer_runes b ! nat (Y pos)))"

text \<open>
  In a sequence of visited runes, the rune at index \<open>k\<close> balances the first one: it is a
  closing rune, and up to and including it there are as many opening as closing runes.
\<close>

definition balances :: "rune \<Rightarrow> rune \<Rightarrow> rune list \<Rightarrow> nat \<Rightarrow> bool" where
  "balances opn cls rs k \<longleftrightarrow> k < length rs \<and> hit opn cls rs 0 k"

text \<open>The index of a location among the cells of a buffer.\<close>

definition pos_index :: "Buffer \<Rightarrow> Loc \<Rightarrow> nat" where
  "pos_index b pos = length (concat (take (nat (Y pos)) (buffer_runes b))) + nat (X pos)"

section \<open>Properties of the UTF-8 functions\<close>

lemma RuneCount_step_le: "p \<noteq> [] \<Longrightarrow> RuneCount_step p \<le> length p"
  by (cases "hd p" rule: first_tab_cases) (auto simp: RuneCount_step_def Let_def Suc_le_eq)

lemma RuneCount_step_take:
  "p \<noteq> [] \<Longrightarrow> RuneCount_step p \<le> k \<Longrightarrow> RuneCount_step (take k p) = RuneCount_step p"
proof (cases "hd p" rule: first_tab_cases)
  case ascii
  then show "p \<noteq> [] \<Longrightarrow> RuneCount_step p \<le> k \<Longrightarrow> ?thesis"
    by (cases k) (simp_all add: RuneCount_step_def Let_def)
next
  case invalid
  then show "p \<noteq> [] \<Longrightarrow> RuneCount_step p \<le> k \<Longrightarrow> ?thesis"
    by (cases k) (simp_all add: RuneCount_step_def Let_def)
next
  case two
  then show "p \<noteq> [] \<Longrightarrow> RuneCount_step p \<le> k \<Longrightarrow> ?thesis"
    by (cases k) (auto simp: RuneCount_step_def Let_def split: if_splits)
next
  case three
  then show "p \<noteq> [] \<Longrightarrow> RuneCount_step p \<le> k \<Longrightarrow> ?thesis"
    by (cases k) (auto simp: RuneCount_step_def Let_def split: if_splits)
next
  case four
  then show "p \<noteq> [] \<Longrightarrow> RuneCount_step p \<le> k \<Longrightarrow> ?thesis"
    by (cases k) (auto simp: RuneCount_step_def Let_def split: if_splits)
qed

lemma RuneCount_Nil [simp]: "RuneCount [] = 0"
  by (simp add: RuneCount.simps)

lemma RuneCount_nonempty: "p \<noteq> [] \<Longrightarrow> RuneCount p = Suc (RuneCount (drop (RuneCount_step p) p))"
  by (subst RuneCount.simps) simp

lemma RuneCount_first: "p \<noteq> [] \<Longrightarrow> RuneCount (take (RuneCount_step p) p) = 1"
  using RuneCount_step_pos [of p]
  by (cases p) (auto simp: RuneCount_nonempty RuneCount_step_take)

lemma RuneCount_take_add:
  assumes "p \<noteq> []"
  shows "RuneCount (take (RuneCount_step p + k) p) = Suc (RuneCount (take k (drop (RuneCount_step p) p)))"
proof -
  have ne: "take (RuneCount_step p + k) p \<noteq> []"
    using assms RuneCount_step_pos [of p] by (cases p) auto
  have "RuneCount_step (take (RuneCount_step p + k) p) = RuneCount_step p"
    using assms by (simp add: RuneCount_step_take)
  then show ?thesis
    using ne by (simp add: RuneCount_nonempty drop_take)
qed

lemma runeToByteIndex_loop_prefix:
  "i < n \<Longrightarrow> n - i \<le> int (RuneCount txt) \<Longrightarrow>
   \<exists>off. runeToByteIndex_loop n txt count i = count + int off \<and> off \<le> length txt \<and>
     RuneCount (take off txt) = nat (n - i)"
proof (induction n "txt" count i rule: runeToByteIndex_loop.induct)
  case (1 n bs count i)
  show ?case
  proof (cases "bs = []")
    case True
    with "1.prems" show ?thesis by simp
  next
    case False
    define size where "size = RuneCount_step bs"
    have sz: "snd (DecodeRune bs) = size" "1 \<le> size" "size \<le> length bs"
      using False RuneCount_step_pos [of bs]
      by (simp_all add: size_def DecodeRune_size RuneCount_step_le)
    have rc: "RuneCount bs = Suc (RuneCount (drop size bs))"
      using False by (simp add: size_def RuneCount_nonempty)
    show ?thesis
    proof (cases "i + 1 = n")
      case True
      have "runeToByteIndex_loop n bs count i = count + int size"
        using False True sz by (subst runeToByteIndex_loop.simps) (simp add: Let_def)
      moreover have "RuneCount (take size bs) = nat (n - i)"
        using True False by (simp add: size_def RuneCount_first)
      ultimately show ?thesis using sz by blast
    next
      case neq: False
      have step: "runeToByteIndex_loop n bs count i =
          runeToByteIndex_loop n (drop size bs) (count + int size) (i + 1)"
        using False neq sz by (subst runeToByteIndex_loop.simps) (simp add: Let_def)
      have "\<exists>off. runeToByteIndex_loop n (drop size bs) (count + int size) (i + 1) =
          (count + int size) + int off \<and> off \<le> length (drop size bs) \<and>
          RuneCount (take off (drop size bs)) = nat (n - (i + 1))"
        using "1.prems" neq rc
        by (intro "1.IH" [OF False]) (simp_all add: sz)
      then obtain off where off:
        "runeToByteIndex_loop n (drop size bs) (count + int size) (i + 1) = (count + int size) + int off"
        "off \<le> length (drop size bs)"
        "RuneCount (take off (drop size bs)) = nat (n - (i + 1))"
        by blast
      have "RuneCount (take (size + off) bs) = nat (n - i)"
        using RuneCount_take_add [OF False, of off] off(3) "1.prems" neq
        by (simp add: size_def)
      moreover have "size + off \<le> length bs" using off(2) sz by simp
      moreover have "runeToByteIndex_loop n bs count i = count + int (size + off)"
        using step off(1) by simp
      ultimately show ?thesis by blast
    qed
  qed
qed

section \<open>Properties of the line store primitives\<close>

lemma line_okD: "line_ok la y \<Longrightarrow> 0 \<le> y \<and> nat y < length (lines la)"
  by (auto simp: line_ok_def)

lemma line_ok_set_line [simp]: "line_ok (set_line la y l) y' = line_ok la y'"
  by (simp add: line_ok_def set_line_def)

lemma lines_set_line [simp]: "lines (set_line la y l) = (lines la)[nat y := l]"
  by (simp add: set_line_def)

lemma line_at_set_line_same [simp]: "line_ok la y \<Longrightarrow> line_at (set_line la y l) y = l"
  by (simp add: line_at_def set_line_def line_ok_def nat_less_iff)

lemma set_line_set_line [simp]: "set_line (set_line la y l) y l' = set_line la y l'"
  by (simp add: set_line_def)

lemma insert_loop_no_LF:
  "LF \<notin> set vs \<Longrightarrow> line_ok la y \<Longrightarrow> 0 \<le> x \<Longrightarrow> x \<le> int (length (data (line_at la y))) \<Longrightarrow>
   insert_loop d la x y vs =
     Inr (set_line la y ((line_at la y)\<lparr>data :=
        take (nat x) (data (line_at la y)) @ vs @ drop (nat x) (data (line_at la y))\<rparr>))"
proof (induction vs arbitrary: la x)
  case Nil
  then show ?case
    by (simp add: set_line_def line_at_def line_ok_def)
next
  case (Cons v vs)
  let ?l = "line_at la y"
  let ?la1 = "set_line la y (?l\<lparr>data := take (nat x) (data ?l) @ [v] @ drop (nat x) (data ?l)\<rparr>)"
  have ib: "insertByte la \<lparr>X = x, Y = y\<rparr> v = Inr ?la1"
    using Cons.prems by (simp add: insertByte_def Let_def)
  have "insert_loop d ?la1 (x + 1) y vs =
     Inr (set_line ?la1 y ((line_at ?la1 y)\<lparr>data :=
        take (nat (x + 1)) (data (line_at ?la1 y)) @ vs @ drop (nat (x + 1)) (data (line_at ?la1 y))\<rparr>))"
    using Cons.prems by (intro Cons.IH) simp_all
  moreover have "nat (x + 1) = Suc (nat x)" using Cons.prems by simp
  moreover have "v \<noteq> LF" using Cons.prems by auto
  ultimately show ?case
    using Cons.prems ib by (simp add: take_Suc_conv_app_nth nat_le_iff)
qed

lemma runeToByteIndex_0 [simp]: "runeToByteIndex 0 bs = 0"
  by (simp add: runeToByteIndex_def)

lemma Split_no_LF:
  assumes ok: "line_ok la y" and x: "0 \<le> x" "x \<le> int (length (data (line_at la y)))"
    and tail: "LF \<notin> set (drop (nat x) (data (line_at la y)))"
  shows "Split (Suc d) la \<lparr>X = x, Y = y\<rparr> =
     Inr (la\<lparr>lines := take (nat y) (lines la)
            @ [(line_at la y)\<lparr>data := take (nat x) (data (line_at la y)),
                 state := None, match := None, rehighlight := True\<rparr>,
               \<lparr>data = drop (nat x) (data (line_at la y)), state = state (line_at la y),
                 match = None, rehighlight = False\<rparr>]
            @ drop (Suc (nat y)) (lines la)\<rparr>)"
proof -
  obtain n where n: "y = int n" "n < length (lines la)"
    using ok by (auto simp: line_ok_def elim: nonneg_int_cases)
  define l where "l = lines la ! n"
  define nl :: Line where "nl = \<lparr>data = [], state = state l, match = None, rehighlight = False\<rparr>"
  define la1 where "la1 = la\<lparr>lines := take (Suc n) (lines la) @ [nl] @ drop (Suc n) (lines la)\<rparr>"
  have l: "line_at la (int n) = l" by (simp add: line_at_def l_def)
  have nb: "NewlineBelow la (int n) = Inr la1"
    using ok by (simp add: NewlineBelow_def l la1_def nl_def n nat_add_distrib)
  have l1: "line_at la1 (int n) = l" "line_at la1 (int n + 1) = nl" "line_ok la1 (int n + 1)"
      "line_ok la1 (int n)"
    using n by (simp_all add: line_at_def la1_def l_def nth_append line_ok_def nat_add_distrib)
  have ins: "insert d la1 \<lparr>X = 0, Y = int n + 1\<rparr> (drop (nat x) (data l)) =
      Inr (set_line la1 (int n + 1) (nl\<lparr>data := drop (nat x) (data l)\<rparr>))"
    using tail l1 insert_loop_no_LF [of "drop (nat x) (data l)" la1 "int n + 1" 0 d]
    by (simp add: l nl_def n insert.simps)
  define la2 where "la2 = set_line la1 (int n + 1) (nl\<lparr>data := drop (nat x) (data l)\<rparr>)"
  have lines2: "lines la2 = take n (lines la) @ [l, nl\<lparr>data := drop (nat x) (data l)\<rparr>]
      @ drop (Suc n) (lines la)"
    using n by (simp add: la2_def la1_def nat_add_distrib list_update_append
        take_Suc_conv_app_nth l_def)
  have len2: "length (take n (lines la)) = n" using n by simp
  have "Split (Suc d) la \<lparr>X = x, Y = int n\<rparr> =
      (let la3 = set_line la2 (int n + 1) ((line_at la2 (int n + 1))\<lparr>state := state (line_at la2 (int n))\<rparr>);
           la4 = set_line la3 (int n) ((line_at la3 (int n))\<lparr>state := None\<rparr>);
           la5 = set_line la4 (int n) ((line_at la4 (int n))\<lparr>match := None\<rparr>);
           la6 = set_line la5 (int n + 1) ((line_at la5 (int n + 1))\<lparr>match := None\<rparr>);
           la7 = set_line la6 (int n) ((line_at la6 (int n))\<lparr>rehighlight := True\<rparr>)
       in DeleteToEnd la7 \<lparr>X = x, Y = int n\<rparr>)"
    using x by (simp add: Split.simps nb l1 ins l n la2_def)
  also have "\<dots> = Inr (la\<lparr>lines := take n (lines la)
            @ [l\<lparr>data := take (nat x) (data l), state := None, match := None, rehighlight := True\<rparr>,
               \<lparr>data = drop (nat x) (data l), state = state l, match = None, rehighlight = False\<rparr>]
            @ drop (Suc n) (lines la)\<rparr>)"
    using x n
    apply (simp add: Let_def DeleteToEnd_def line_at_def set_line_def line_ok_def lines2
        nth_append list_update_append nat_add_distrib len2 l nl_def)
    apply (auto simp: l_def)
    done
  finally show ?thesis by (simp add: n l)
qed
lemma RuneCount_le_length: "RuneCount p \<le> length p"
proof (induction p rule: RuneCount.induct)
  case (1 p)
  show ?case
  proof (cases "p = []")
    case True
    then show ?thesis by simp
  next
    case False
    have "RuneCount (drop (RuneCount_step p) p) \<le> length p - RuneCount_step p"
      using "1.IH" [OF False] by simp
    moreover have "1 \<le> RuneCount_step p" "RuneCount_step p \<le> length p"
      using False RuneCount_step_pos [of p] by (simp_all add: RuneCount_step_le)
    ultimately show ?thesis
      using False by (simp add: RuneCount_nonempty)
  qed
qed

lemma RuneCount_eq_0: "RuneCount p = 0 \<longleftrightarrow> p = []"
  by (cases "p = []") (simp_all add: RuneCount_nonempty)

lemma runeToByteIndex_loop_end:
  "i < n \<Longrightarrow> int (RuneCount bs) \<le> n - i \<Longrightarrow>
   runeToByteIndex_loop n bs count i = count + int (length bs)"
proof (induction n bs count i rule: runeToByteIndex_loop.induct)
  case (1 n bs count i)
  show ?case
  proof (cases "bs = []")
    case True
    then show ?thesis by (subst runeToByteIndex_loop.simps) simp
  next
    case False
    define size where "size = RuneCount_step bs"
    have sz: "snd (DecodeRune bs) = size" "1 \<le> size" "size \<le> length bs"
      using False RuneCount_step_pos [of bs]
      by (simp_all add: size_def DecodeRune_size RuneCount_step_le)
    have rc: "RuneCount bs = Suc (RuneCount (drop size bs))"
      using False by (simp add: size_def RuneCount_nonempty)
    show ?thesis
    proof (cases "i + 1 = n")
      case True
      then have "RuneCount (drop size bs) = 0" using "1.prems" rc by simp
      then have "size = length bs" using sz by (simp add: RuneCount_eq_0)
      moreover have "runeToByteIndex_loop n bs count i = count + int size"
        using False True sz by (subst runeToByteIndex_loop.simps) (simp add: Let_def)
      ultimately show ?thesis by simp
    next
      case neq: False
      have step: "runeToByteIndex_loop n bs count i =
          runeToByteIndex_loop n (drop size bs) (count + int size) (i + 1)"
        using False neq sz by (subst runeToByteIndex_loop.simps) (simp add: Let_def)
      have "runeToByteIndex_loop n (drop size bs) (count + int size) (i + 1) =
          (count + int size) + int (length (drop size bs))"
        using "1.prems" neq rc
        by (intro "1.IH" [OF False]) (simp_all add: sz)
      then show ?thesis using step sz by simp
    qed
  qed
qed

lemma runeToByteIndex_loop_bounds:
  "\<exists>off. runeToByteIndex_loop n bs count i = count + int off \<and> off \<le> length bs"
proof (induction n bs count i rule: runeToByteIndex_loop.induct)
  case (1 n bs count i)
  show ?case
  proof (cases "bs = []")
    case True
    then show ?thesis by (subst runeToByteIndex_loop.simps) simp
  next
    case False
    define size where "size = RuneCount_step bs"
    have sz: "snd (DecodeRune bs) = size" "1 \<le> size" "size \<le> length bs"
      using False RuneCount_step_pos [of bs]
      by (simp_all add: size_def DecodeRune_size RuneCount_step_le)
    show ?thesis
    proof (cases "i + 1 = n")
      case True
      have "runeToByteIndex_loop n bs count i = count + int size"
        using False True sz by (subst runeToByteIndex_loop.simps) (simp add: Let_def)
      then show ?thesis using sz by blast
    next
      case neq: False
      have step: "runeToByteIndex_loop n bs count i =
          runeToByteIndex_loop n (drop size bs) (count + int size) (i + 1)"
        using False neq sz by (subst runeToByteIndex_loop.simps) (simp add: Let_def)
      have "\<exists>off. runeToByteIndex_loop n (drop size bs) (count + int size) (i + 1) =
          (count + int size) + int off \<and> off \<le> length (drop size bs)"
        using neq by (intro "1.IH" [OF False]) (simp_all add: sz)
      then obtain off where "runeToByteIndex_loop n (drop size bs) (count + int size) (i + 1) =
          (count + int size) + int off" "off \<le> length (drop size bs)" by blast
      then have "runeToByteIndex_loop n bs count i = count + int (size + off)"
          "size + off \<le> length bs"
        using step sz by simp_all
      then show ?thesis by blast
    qed
  qed
qed

lemma runeToByteIndex_bounds:
  "0 \<le> runeToByteIndex n bs \<and> runeToByteIndex n bs \<le> int (length bs)"
  using runeToByteIndex_loop_bounds [of n bs 0 0] by (auto simp: runeToByteIndex_def)

lemma runeToByteIndex_length [simp]: "runeToByteIndex (int (length bs)) bs = int (length bs)"
proof (cases "bs = []")
  case True
  then show ?thesis by (simp add: runeToByteIndex_def)
next
  case False
  then have "0 < int (length bs)" "int (RuneCount bs) \<le> int (length bs) - 0"
    using RuneCount_le_length [of bs] by simp_all
  from runeToByteIndex_loop_end [OF this, of 0] False show ?thesis
    by (simp add: runeToByteIndex_def)
qed

lemma insert_no_LF:
  assumes "LF \<notin> set vs" "line_ok la (Y pos)"
  shows "insert d la pos vs =
     Inr (set_line la (Y pos) ((line_at la (Y pos))\<lparr>data :=
        take (nat (runeToByteIndex (X pos) (data (line_at la (Y pos))))) (data (line_at la (Y pos)))
        @ vs
        @ drop (nat (runeToByteIndex (X pos) (data (line_at la (Y pos))))) (data (line_at la (Y pos)))\<rparr>))"
  using assms runeToByteIndex_bounds [of "X pos" "data (line_at la (Y pos))"]
  by (simp add: insert.simps insert_loop_no_LF)

lemma JoinLines_no_LF:
  assumes "line_ok la a" "line_ok la b" "LF \<notin> set (data (line_at la b))"
  shows "JoinLines d la a b =
     DeleteLine (set_line la a ((line_at la a)\<lparr>data := data (line_at la a) @ data (line_at la b)\<rparr>)) b"
  using assms by (simp add: JoinLines_def insert_no_LF)

lemma no_LF_line: "no_LF la \<Longrightarrow> line_ok la y \<Longrightarrow> LF \<notin> set (data (line_at la y))"
  by (simp add: no_LF_def line_ok_def line_at_def nat_less_iff)

lemma Split_JoinLines_lines:
  assumes inv: "LF \<notin> set (data (line_at la (Y pos)))" and ok: "line_ok la (Y pos)"
    and x: "0 \<le> X pos" "X pos \<le> int (length (data (line_at la (Y pos))))"
  shows "\<exists>la1. Split (Suc d) la pos = Inr la1 \<and>
     length (lines la1) = length (lines la) + 1 \<and>
     JoinLines d' la1 (Y pos) (Y pos + 1) =
       Inr (set_line la (Y pos) ((line_at la (Y pos))\<lparr>state := None, match := None, rehighlight := True\<rparr>))"
proof -
  obtain n where n: "Y pos = int n" "n < length (lines la)"
    using ok by (auto simp: line_ok_def elim: nonneg_int_cases)
  define l where "l = line_at la (int n)"
  define k where "k = nat (X pos)"
  have k: "X pos = int k" "k \<le> length (data l)" using x by (simp_all add: k_def l_def n)
  define a where "a = l\<lparr>data := take k (data l), state := None, match := None, rehighlight := True\<rparr>"
  define b :: Line where "b = \<lparr>data = drop k (data l), state = state l, match = None, rehighlight = False\<rparr>"
  define la1 where "la1 = la\<lparr>lines := take n (lines la) @ [a, b] @ drop (Suc n) (lines la)\<rparr>"
  have pos: "pos = \<lparr>X = int k, Y = int n\<rparr>" using n k by simp
  have tail: "LF \<notin> set (drop k (data l))"
    using inv by (auto simp: l_def n dest: in_set_dropD)
  have sp: "Split (Suc d) la pos = Inr la1"
    unfolding pos using Split_no_LF [of la "int n" "int k" d] ok k tail
    by (simp add: n l_def [symmetric] la1_def a_def b_def)
  have l1: "line_ok la1 (int n)" "line_ok la1 (int n + 1)" "line_at la1 (int n) = a"
    "line_at la1 (int n + 1) = b"
    using n by (simp_all add: la1_def line_ok_def line_at_def nth_append nat_add_distrib)
  have "JoinLines d' la1 (int n) (int n + 1) =
      DeleteLine (set_line la1 (int n) (a\<lparr>data := data a @ data b\<rparr>)) (int n + 1)"
    using JoinLines_no_LF [of la1 "int n" "int n + 1" d'] l1 tail by (simp add: b_def)
  also have "\<dots> = Inr (set_line la (int n) (l\<lparr>state := None, match := None, rehighlight := True\<rparr>))"
    using n l1(2)
    apply (simp add: DeleteLine_def a_def b_def)
    apply (simp add: la1_def set_line_def nat_add_distrib list_update_append upd_conv_take_nth_drop)
    done
  finally have "JoinLines d' la1 (Y pos) (Y pos + 1) =
      Inr (set_line la (Y pos) ((line_at la (Y pos))\<lparr>state := None, match := None, rehighlight := True\<rparr>))"
    by (simp add: n l_def)
  moreover have "length (lines la1) = length (lines la) + 1"
    using n by (simp add: la1_def)
  ultimately show ?thesis using sp by blast
qed

lemma runeToByteIndex_loop_mono:
  "i < n \<Longrightarrow> n \<le> n' \<Longrightarrow> runeToByteIndex_loop n bs count i \<le> runeToByteIndex_loop n' bs count i"
proof (induction n bs count i rule: runeToByteIndex_loop.induct)
  case (1 n bs count i)
  show ?case
  proof (cases "bs = []")
    case True
    then show ?thesis
      by (simp add: runeToByteIndex_loop.simps [of n] runeToByteIndex_loop.simps [of n'])
  next
    case False
    define size where "size = snd (DecodeRune bs)"
    show ?thesis
    proof (cases "i + 1 = n")
      case True
      have a: "runeToByteIndex_loop n bs count i = count + int size"
        using False True by (subst runeToByteIndex_loop.simps) (simp add: Let_def size_def)
      show ?thesis
      proof (cases "i + 1 = n'")
        case True
        then show ?thesis using \<open>i + 1 = n\<close> by simp
      next
        case neq: False
        have "runeToByteIndex_loop n' bs count i =
            runeToByteIndex_loop n' (drop size bs) (count + int size) (i + 1)"
          using False neq by (subst runeToByteIndex_loop.simps) (simp add: Let_def size_def)
        moreover obtain off where "runeToByteIndex_loop n' (drop size bs) (count + int size) (i + 1)
            = count + int size + int off"
          using runeToByteIndex_loop_bounds by blast
        ultimately show ?thesis using a by simp
      qed
    next
      case neq: False
      then have neq': "i + 1 \<noteq> n'" using "1.prems" by simp
      have "runeToByteIndex_loop n bs count i =
          runeToByteIndex_loop n (drop size bs) (count + int size) (i + 1)"
        using False neq by (subst runeToByteIndex_loop.simps) (simp add: Let_def size_def)
      moreover have "runeToByteIndex_loop n' bs count i =
          runeToByteIndex_loop n' (drop size bs) (count + int size) (i + 1)"
        using False neq' by (subst runeToByteIndex_loop.simps) (simp add: Let_def size_def)
      moreover have "runeToByteIndex_loop n (drop size bs) (count + int size) (i + 1)
          \<le> runeToByteIndex_loop n' (drop size bs) (count + int size) (i + 1)"
        using "1.prems" neq by (intro "1.IH" [OF False]) (simp_all add: size_def)
      ultimately show ?thesis by simp
    qed
  qed
qed

lemma runeToByteIndex_mono:
  assumes "0 \<le> k" "k \<le> k'"
  shows "runeToByteIndex k bs \<le> runeToByteIndex k' bs"
proof (cases "k = 0")
  case True
  then show ?thesis using runeToByteIndex_bounds [of k' bs] by simp
next
  case False
  with assms have "0 < k" "k' \<noteq> 0" by simp_all
  with assms runeToByteIndex_loop_mono [of 0 k k' bs 0] False show ?thesis
    by (simp add: runeToByteIndex_def)
qed

lemma remove_loop_lines:
  "0 \<le> sy \<Longrightarrow> k = nat (ey - i) \<Longrightarrow> Suc (nat sy) + k \<le> length (lines la) \<Longrightarrow>
   remove_loop la sy ey i =
     Inr (la\<lparr>lines := take (Suc (nat sy)) (lines la) @ drop (Suc (nat sy) + k) (lines la)\<rparr>)"
proof (induction k arbitrary: la i)
  case 0
  then show ?case by (subst remove_loop.simps) simp
next
  case (Suc k)
  let ?la' = "la\<lparr>lines := take (Suc (nat sy)) (lines la) @ drop (Suc (Suc (nat sy))) (lines la)\<rparr>"
  have i: "i \<le> ey - 1" using Suc.prems by simp
  have dl: "DeleteLine la (sy + 1) = Inr ?la'"
    using Suc.prems by (simp add: DeleteLine_def line_ok_def nat_add_distrib)
  have "remove_loop ?la' sy ey (i + 1) =
     Inr (?la'\<lparr>lines := take (Suc (nat sy)) (lines ?la') @ drop (Suc (nat sy) + k) (lines ?la')\<rparr>)"
    using Suc.prems by (intro Suc.IH) simp_all
  moreover have "nat (ey - i) = Suc k" using Suc.prems by simp
  ultimately show ?case
    using i dl Suc.prems(1,3) by (subst remove_loop.simps) (simp add: min_def add.commute)
qed

lemma remove_lines:
  assumes inv: "no_LF la" and oks: "line_ok la (Y start)" and oke: "line_ok la (Y end)"
    and le: "Y start < Y end \<or> (Y start = Y end \<and>
       runeToByteIndex (X start) (data (line_at la (Y start)))
         \<le> runeToByteIndex (X end) (data (line_at la (Y end))))"
  shows "\<exists>sub. Substr la start end = Inr sub \<and>
     remove d la start end = Inr (sub,
       la\<lparr>lines := take (nat (Y start)) (lines la)
          @ [(line_at la (Y start))\<lparr>data :=
               take (nat (runeToByteIndex (X start) (data (line_at la (Y start)))))
                 (data (line_at la (Y start)))
               @ drop (nat (runeToByteIndex (X end) (data (line_at la (Y end)))))
                 (data (line_at la (Y end)))\<rparr>]
          @ drop (Suc (nat (Y end))) (lines la)\<rparr>)"
proof -
  obtain m where m: "Y start = int m" "m < length (lines la)"
    using oks by (auto simp: line_ok_def elim: nonneg_int_cases)
  obtain n where n: "Y end = int n" "n < length (lines la)"
    using oke by (auto simp: line_ok_def elim: nonneg_int_cases)
  define ls where "ls = lines la ! m"
  define le where "le = lines la ! n"
  define sx where "sx = nat (runeToByteIndex (X start) (data ls))"
  define ex where "ex = nat (runeToByteIndex (X end) (data le))"
  have sx: "runeToByteIndex (X start) (data ls) = int sx" "sx \<le> length (data ls)"
    using runeToByteIndex_bounds [of "X start" "data ls"] by (simp_all add: sx_def nat_le_iff)
  have ex: "runeToByteIndex (X end) (data le) = int ex" "ex \<le> length (data le)"
    using runeToByteIndex_bounds [of "X end" "data le"] by (simp_all add: ex_def nat_le_iff)
  have la: "line_at la (int m) = ls" "line_at la (int n) = le"
    by (simp_all add: line_at_def ls_def le_def)
  show ?thesis
  proof (cases "m = n")
    case True
    have n': "Y end = int m" and ex': "runeToByteIndex (X end) (data ls) = int ex"
      using True n ex by (simp_all add: ls_def le_def)
    have "sx \<le> ex" using le sx ex la True by (simp add: m n)
    moreover have "m < length (lines la)" by (rule m)
    ultimately have "remove d la start end = Inr (take (ex - sx) (drop sx (data ls)),
        set_line la (int m) (ls\<lparr>data := take sx (data ls) @ drop ex (data ls)\<rparr>))"
      and "Substr la start end = Inr (take (ex - sx) (drop sx (data ls)))"
      using oks by (simp_all add: remove_def Substr_def m n' la sx ex' Let_def)
    moreover have "set_line la (int m) (ls\<lparr>data := take sx (data ls) @ drop ex (data ls)\<rparr>) =
        la\<lparr>lines := take m (lines la) @ [ls\<lparr>data := take sx (data ls) @ drop ex (data ls)\<rparr>]
          @ drop (Suc m) (lines la)\<rparr>"
      using m by (simp add: set_line_def upd_conv_take_nth_drop)
    ultimately show ?thesis
      by (simp add: m n' la sx ex')
  next
    case False
    then have mn: "m < n" using le by (simp add: m n)
    have sub: "Substr la start end = Inr (drop sx (data ls) @ [LF]
        @ concat (map (\<lambda>i. data (line_at la i) @ [LF]) [int m + 1 .. int n - 1])
        @ take ex (data le))"
      using False oks oke by (simp add: Substr_def m n la sx ex Let_def)
    define la1 where "la1 = la\<lparr>lines := take (Suc m) (lines la) @ drop n (lines la)\<rparr>"
    have "remove_loop la (int m) (int n) (int m + 1) =
       Inr (la\<lparr>lines := take (Suc (nat (int m))) (lines la)
          @ drop (Suc (nat (int m)) + (n - Suc m)) (lines la)\<rparr>)"
      using mn n by (intro remove_loop_lines) (simp_all add: nat_diff_distrib)
    then have rl: "remove_loop la (int m) (int n) (int m + 1) = Inr la1"
      using mn by (simp add: la1_def)
    have l1: "lines la1 = take m (lines la) @ [ls, le] @ drop (Suc n) (lines la)"
      using m n by (simp add: la1_def take_Suc_conv_app_nth ls_def le_def Cons_nth_drop_Suc)
    have len: "length (take m (lines la)) = m" using m by simp
    define la2 where "la2 = la\<lparr>lines := take m (lines la) @ [ls\<lparr>data := take sx (data ls)\<rparr>, le]
        @ drop (Suc n) (lines la)\<rparr>"
    have d1: "DeleteToEnd la1 \<lparr>X = int sx, Y = int m\<rparr> = Inr la2"
      using sx m
      apply (simp add: DeleteToEnd_def line_ok_def line_at_def l1 nth_append len Let_def set_line_def
          list_update_append)
      apply (simp add: la1_def la2_def)
      done
    define la3 where "la3 = la\<lparr>lines := take m (lines la)
        @ [ls\<lparr>data := take sx (data ls)\<rparr>, le\<lparr>data := drop ex (data le)\<rparr>]
        @ drop (Suc n) (lines la)\<rparr>"
    have d2: "DeleteFromStart la2 \<lparr>X = int ex - 1, Y = int m + 1\<rparr> = Inr la3"
      using ex m
      apply (simp add: DeleteFromStart_def line_ok_def line_at_def la2_def nth_append len Let_def
          set_line_def list_update_append nat_add_distrib)
      apply (simp add: la3_def)
      done
    have tail: "LF \<notin> set (drop ex (data le))"
      using no_LF_line [OF inv oke] by (auto simp: n la dest: in_set_dropD)
    have l3: "line_ok la3 (int m)" "line_ok la3 (int m + 1)"
      "line_at la3 (int m) = ls\<lparr>data := take sx (data ls)\<rparr>"
      "line_at la3 (int m + 1) = le\<lparr>data := drop ex (data le)\<rparr>"
      using m by (simp_all add: la3_def line_ok_def line_at_def nth_append nat_add_distrib)
    have "JoinLines d la3 (int m) (int m + 1) =
      DeleteLine (set_line la3 (int m) (ls\<lparr>data := take sx (data ls) @ drop ex (data le)\<rparr>)) (int m + 1)"
      using JoinLines_no_LF [of la3 "int m" "int m + 1" d] l3 tail by simp
    also have "\<dots> = Inr (la\<lparr>lines := take m (lines la)
          @ [ls\<lparr>data := take sx (data ls) @ drop ex (data le)\<rparr>]
          @ drop (Suc n) (lines la)\<rparr>)"
      using m l3(2)
      apply (simp add: DeleteLine_def)
      apply (simp add: la3_def set_line_def list_update_append nat_add_distrib)
      done
    finally have jl: "JoinLines d la3 (int m) (int m + 1) = Inr (la\<lparr>lines := take m (lines la)
          @ [ls\<lparr>data := take sx (data ls) @ drop ex (data le)\<rparr>]
          @ drop (Suc n) (lines la)\<rparr>)" .
    show ?thesis
      using False
      by (simp add: remove_def sub m n la sx ex Let_def rl d1 d2 jl)
  qed
qed

lemma NewLineArray_loop_EOF_nonempty: "NewLineArray_loop ls (bs, EOF) \<noteq> []"
proof (induction ls "(bs, EOF)" arbitrary: bs rule: NewLineArray_loop.induct)
  case (1 ls)
  show ?case
  proof (cases "LF \<in> set bs")
    case True
    have "NewLineArray_loop ls (bs, EOF) =
        NewLineArray_loop (ls @ [new_Line (take (length (takeWhile (\<lambda>c. c \<noteq> LF) bs @ [LF]) - 1)
           (takeWhile (\<lambda>c. c \<noteq> LF) bs @ [LF]))]) (tl (dropWhile (\<lambda>c. c \<noteq> LF) bs), EOF)"
      using True by (subst NewLineArray_loop.simps) (simp add: ReadBytes_def)
    moreover have "NewLineArray_loop (ls @ [new_Line (take (length (takeWhile (\<lambda>c. c \<noteq> LF) bs @ [LF]) - 1)
           (takeWhile (\<lambda>c. c \<noteq> LF) bs @ [LF]))]) (tl (dropWhile (\<lambda>c. c \<noteq> LF) bs), EOF) \<noteq> []"
      using True by (intro "1.hyps") (simp_all add: ReadBytes_def)
    ultimately show ?thesis by simp
  next
    case False
    then show ?thesis by (subst NewLineArray_loop.simps) (simp add: ReadBytes_def)
  qed
qed

lemma NewLineArray_empty: "NewLineArray_loop [] ([], e) = (if e = EOF then [new_Line []] else [])"
  by (subst NewLineArray_loop.simps) (simp add: ReadBytes_def)

lemma Substr_ok: "Substr la start end = Inr sub \<Longrightarrow> line_ok la (Y start) \<and> line_ok la (Y end)"
  by (auto simp: Substr_def split: if_splits)

lemma remove_keeps_a_line:
  assumes inv: "no_LF la" and r: "remove d la start end = Inr (sub, la')"
  shows "1 \<le> length (lines la')"
proof -
  obtain s where s: "Substr la start end = Inr s"
    using r by (auto simp: remove_def split: sum.splits)
  then have ok: "line_ok la (Y start)" "line_ok la (Y end)"
    using Substr_ok by blast+
  define sx where "sx = runeToByteIndex (X start) (data (line_at la (Y start)))"
  define ex where "ex = runeToByteIndex (X end) (data (line_at la (Y end)))"
  have sx: "0 \<le> sx" "sx \<le> int (length (data (line_at la (Y start))))"
    using runeToByteIndex_bounds [of "X start" "data (line_at la (Y start))"] by (simp_all add: sx_def)
  consider (same) "Y start = Y end" | (less) "Y start < Y end" | (greater) "Y end < Y start"
    by linarith
  then show ?thesis
  proof cases
    case same
    then have "length (lines la') = length (lines la)"
      using r s by (auto simp: remove_def Let_def)
    then show ?thesis using ok by (simp add: line_ok_def)
  next
    case less
    have "(Y start = Y end \<and> sx \<le> ex) \<or> Y start < Y end" using less by simp
    then have "Y start < Y end \<or> (Y start = Y end \<and>
       runeToByteIndex (X start) (data (line_at la (Y start)))
         \<le> runeToByteIndex (X end) (data (line_at la (Y end))))"
      by (auto simp: sx_def ex_def)
    from remove_lines [OF inv ok this, of d] r
    have "length (lines la') = length (take (nat (Y start)) (lines la)) + 1
        + length (drop (Suc (nat (Y end))) (lines la))"
      by auto
    then show ?thesis by simp
  next
    case greater
    obtain m where m: "Y start = int m" "m < length (lines la)"
      using ok by (auto simp: line_ok_def elim: nonneg_int_cases)
    define l where "l = lines la ! m"
    have rl: "remove_loop la (Y start) (Y end) (Y start + 1) = Inr la"
      using greater by (subst remove_loop.simps) simp
    define la2 where "la2 = set_line la (int m) (l\<lparr>data := take (nat sx) (data l)\<rparr>)"
    have d1: "DeleteToEnd la \<lparr>X = sx, Y = int m\<rparr> = Inr la2"
      using sx ok by (simp add: DeleteToEnd_def m la2_def Let_def line_at_def l_def)
    have sxm: "runeToByteIndex (X start) (data (line_at la (int m))) = sx"
      by (simp add: sx_def m)
    from r obtain la3 where d2: "DeleteFromStart la2 \<lparr>X = ex - 1, Y = int m + 1\<rparr> = Inr la3"
      and j: "JoinLines d la3 (int m) (int m + 1) = Inr la'"
      using greater s rl d1 
      by (auto simp: remove_def Let_def m sxm ex_def [symmetric] split: sum.splits)
    have ok2: "line_ok la (int m + 1)" and e: "0 \<le> ex"
      and la3: "la3 = set_line la2 (int m + 1)
         ((line_at la2 (int m + 1))\<lparr>data := drop (nat ex) (data (line_at la2 (int m + 1)))\<rparr>)"
      using d2 by (auto simp: DeleteFromStart_def la2_def Let_def split: if_splits)
    have m1: "Suc m < length (lines la)" using ok2 by (simp add: line_ok_def)
    have l3: "line_at la3 (int m + 1) = (lines la ! Suc m)\<lparr>data := drop (nat ex) (data (lines la ! Suc m))\<rparr>"
      using m1 by (simp add: la3 la2_def line_at_def nat_add_distrib)
    have "LF \<notin> set (data (lines la ! Suc m))"
      using inv m1 by (simp add: no_LF_def)
    then have tail: "LF \<notin> set (data (line_at la3 (int m + 1)))"
      by (auto simp: l3 dest: in_set_dropD)
    have ok3: "line_ok la3 (int m)" "line_ok la3 (int m + 1)"
      using ok m ok2 by (simp_all add: la3 la2_def)
    from JoinLines_no_LF [OF ok3 tail, of d] j
    have "length (lines la') = length (lines la) - 1"
      using ok3 m1 by (auto simp: DeleteLine_def la3 la2_def nat_add_distrib split: if_splits)
    then show ?thesis using m1 by simp
  qed
qed

lemma takeWhile_not_LF: "LF \<notin> set a \<Longrightarrow> takeWhile (\<lambda>c. c \<noteq> LF) (a @ LF # rest) = a"
  by (induction a) auto

lemma dropWhile_not_LF: "LF \<notin> set a \<Longrightarrow> dropWhile (\<lambda>c. c \<noteq> LF) (a @ LF # rest) = LF # rest"
  by (induction a) auto

lemma ReadBytes_LF:
  "LF \<notin> set a \<Longrightarrow> ReadBytes (a @ LF # rest, e) = ((a @ [LF], None), (rest, e))"
  by (simp add: ReadBytes_def takeWhile_not_LF dropWhile_not_LF)

lemma ReadBytes_end:
  "LF \<notin> set a \<Longrightarrow> ReadBytes (a, e) = ((a, Some e), ([], e))"
  by (simp add: ReadBytes_def)

lemma NewLineArray_loop_LF:
  "LF \<notin> set a \<Longrightarrow>
   NewLineArray_loop ls (a @ LF # rest, e) = NewLineArray_loop (ls @ [new_Line a]) (rest, e)"
  by (subst NewLineArray_loop.simps) (simp add: ReadBytes_LF)

lemma NewLineArray_loop_end:
  "LF \<notin> set a \<Longrightarrow>
   NewLineArray_loop ls (a, e) = (if e = EOF then ls @ [new_Line a] else ls)"
  by (subst NewLineArray_loop.simps) (simp add: ReadBytes_end)

lemma split_first_LF:
  "LF \<in> set bs \<Longrightarrow> \<exists>a rest. bs = a @ LF # rest \<and> LF \<notin> set a"
  by (metis split_list_first)

lemma NewLineArray_loop_induct [consumes 0, case_names final line]:
  assumes final: "\<And>a ls. LF \<notin> set a \<Longrightarrow> P ls a"
    and line: "\<And>a rest ls. LF \<notin> set a \<Longrightarrow> (\<And>ls'. P ls' rest) \<Longrightarrow> P ls (a @ LF # rest)"
  shows "P ls bs"
proof (induction "length bs" arbitrary: bs ls rule: less_induct)
  case less
  show ?case
  proof (cases "LF \<in> set bs")
    case True
    then obtain a rest where bs: "bs = a @ LF # rest" "LF \<notin> set a"
      using split_first_LF by blast
    then have "length rest < length bs" by simp
    then have "\<And>ls'. P ls' rest" by (rule less)
    with bs show ?thesis by (simp add: line)
  next
    case False
    then show ?thesis by (rule final)
  qed
qed

lemma NewLineArray_loop_prefix: "NewLineArray_loop ls (bs, e) = ls @ NewLineArray_loop [] (bs, e)"
proof (induction ls bs rule: NewLineArray_loop_induct)
  case (final a ls)
  then show ?case by (simp add: NewLineArray_loop_end)
next
  case (line a rest ls)
  have "NewLineArray_loop ls (a @ LF # rest, e) = (ls @ [new_Line a]) @ NewLineArray_loop [] (rest, e)"
    using line.hyps line.IH [of "ls @ [new_Line a]"] by (simp add: NewLineArray_loop_LF)
  also have "\<dots> = ls @ NewLineArray_loop [new_Line a] (rest, e)"
    using line.IH [of "[new_Line a]"] by simp
  finally show ?case using line.hyps by (simp add: NewLineArray_loop_LF)
qed


lemma concat_enumerate_join:
  "k + length ls = N \<Longrightarrow>
   concat (map (\<lambda>(i, l). data l @ (if int i \<noteq> int N - 1 then sep else [])) (enumerate k ls))
     = join_lines sep ls"
proof (induction sep ls arbitrary: k rule: join_lines.induct)
  case (1 sep)
  then show ?case by simp
next
  case (2 sep l)
  then show ?case by auto
next
  case (3 sep l l' ls)
  have "concat (map (\<lambda>(i, l). data l @ (if int i \<noteq> int N - 1 then sep else []))
      (enumerate (Suc k) (l' # ls))) = join_lines sep (l' # ls)"
    using 3 by (intro "3.IH") simp
  moreover have "int k \<noteq> int N - 1" using "3.prems" by simp
  ultimately show ?case by simp
qed

lemma String_join: "String la = join_lines [LF] (lines la)"
  by (simp add: String_def concat_enumerate_join)

lemma Encode_join:
  "Encode ext b filename =
     (if Password b = [] then
        Plain (join_lines (if fileformat b = ''dos'' then [CR, LF] else [LF]) (lines (LineArray b)))
      else SymmetricallyEncrypted (HasSuffix filename ext) (Password b)
        (join_lines (if fileformat b = ''dos'' then [CR, LF] else [LF]) (lines (LineArray b))))"
  by (simp add: Encode_def Let_def concat_enumerate_join)

lemma NewLineArray_loop_Cons:
  "LF \<notin> set a \<Longrightarrow>
   NewLineArray_loop [] (a @ LF # rest, e) = new_Line a # NewLineArray_loop [] (rest, e)"
  using NewLineArray_loop_prefix [of "[new_Line a]" rest e] by (simp add: NewLineArray_loop_LF)

lemma join_lines_Cons:
  "ls \<noteq> [] \<Longrightarrow> join_lines sep (l # ls) = data l @ sep @ join_lines sep ls"
  by (cases ls) simp_all

lemma join_NewLineArray_loop: "join_lines [LF] (NewLineArray_loop [] (bs, EOF)) = bs"
proof (induct "[] :: Line list" bs rule: NewLineArray_loop_induct)
  case (final a)
  then show ?case by (simp add: NewLineArray_loop_end new_Line_def)
next
  case (line a rest)
  then show ?case
    by (simp add: NewLineArray_loop_Cons join_lines_Cons NewLineArray_loop_EOF_nonempty new_Line_def)
qed

lemma insert_loop_append:
  "LF \<notin> set v1 \<Longrightarrow> line_ok la y \<Longrightarrow> 0 \<le> x \<Longrightarrow> x \<le> int (length (data (line_at la y))) \<Longrightarrow>
   insert_loop d la x y (v1 @ v2) =
     insert_loop d (set_line la y ((line_at la y)\<lparr>data :=
        take (nat x) (data (line_at la y)) @ v1 @ drop (nat x) (data (line_at la y))\<rparr>))
       (x + int (length v1)) y v2"
proof (induction v1 arbitrary: la x)
  case Nil
  then have "set_line la y ((line_at la y)\<lparr>data := data (line_at la y)\<rparr>) = la"
    by (simp add: set_line_def line_at_def)
  then show ?case by simp
next
  case (Cons v vs)
  let ?l = "line_at la y"
  let ?la1 = "set_line la y (?l\<lparr>data := take (nat x) (data ?l) @ [v] @ drop (nat x) (data ?l)\<rparr>)"
  have ib: "insertByte la \<lparr>X = x, Y = y\<rparr> v = Inr ?la1"
    using Cons.prems by (simp add: insertByte_def Let_def)
  have "insert_loop d ?la1 (x + 1) y (vs @ v2) =
     insert_loop d (set_line ?la1 y ((line_at ?la1 y)\<lparr>data :=
        take (nat (x + 1)) (data (line_at ?la1 y)) @ vs @ drop (nat (x + 1)) (data (line_at ?la1 y))\<rparr>))
       (x + 1 + int (length vs)) y v2"
    using Cons.prems by (intro Cons.IH) simp_all
  moreover have "nat (x + 1) = Suc (nat x)" using Cons.prems by simp
  moreover have "v \<noteq> LF" using Cons.prems by auto
  moreover have "x + 1 + int (length vs) = x + (1 + int (length vs))" by simp
  ultimately show ?case
    using Cons.prems ib by (simp add: take_Suc_conv_app_nth nat_le_iff)
qed

lemma insert_loop_lines:
  "LF \<notin> set (data (line_at la y)) \<Longrightarrow> line_ok la y \<Longrightarrow> 0 \<le> x \<Longrightarrow>
   x \<le> int (length (data (line_at la y))) \<Longrightarrow>
   \<exists>la'. insert_loop (Suc d) la x y vs = Inr la' \<and>
     map data (lines la') = take (nat y) (map data (lines la))
       @ map data (NewLineArray_loop []
           (take (nat x) (data (line_at la y)) @ vs @ drop (nat x) (data (line_at la y)), EOF))
       @ drop (Suc (nat y)) (map data (lines la))"
proof (induction vs arbitrary: la x y)
  case Nil
  then have n: "nat y < length (map data (lines la))"
    by (simp add: line_ok_def nat_less_iff)
  have "map data (lines la) = take (nat y) (map data (lines la))
      @ (map data (lines la) ! nat y) # drop (Suc (nat y)) (map data (lines la))"
    using n by (rule id_take_nth_drop)
  then have "map data (lines la) = take (nat y) (map data (lines la))
      @ data (lines la ! nat y) # drop (Suc (nat y)) (map data (lines la))"
    using n by simp
  with Nil show ?case
    by (simp add: NewLineArray_loop_end new_Line_def line_at_def)
next
  case (Cons v vs)
  obtain n where n: "y = int n" "n < length (lines la)"
    using Cons.prems(2) by (auto simp: line_ok_def elim: nonneg_int_cases)
  obtain k where k: "x = int k" "k \<le> length (data (line_at la y))"
    using Cons.prems(3,4) by (auto elim: nonneg_int_cases)
  define dl where "dl = data (line_at la y)"
  have dl: "data (lines la ! n) = dl" by (simp add: dl_def line_at_def n)
  have pre: "LF \<notin> set (take k dl)" and suf: "LF \<notin> set (drop k dl)"
    using Cons.prems(1) by (auto simp: dl_def dest: in_set_takeD in_set_dropD)
  show ?case
  proof (cases "v = LF")
    case False
    define la1 where "la1 = set_line la y ((line_at la y)\<lparr>data := take k dl @ [v] @ drop k dl\<rparr>)"
    have ib: "insertByte la \<lparr>X = x, Y = y\<rparr> v = Inr la1"
      using Cons.prems k by (simp add: insertByte_def Let_def la1_def dl_def)
    have l1: "data (line_at la1 y) = take k dl @ [v] @ drop k dl" "line_ok la1 y"
      using Cons.prems(2) by (simp_all add: la1_def)
    have "\<exists>la'. insert_loop (Suc d) la1 (x + 1) y vs = Inr la' \<and>
       map data (lines la') = take (nat y) (map data (lines la1))
         @ map data (NewLineArray_loop []
             (take (nat (x + 1)) (data (line_at la1 y)) @ vs @ drop (nat (x + 1)) (data (line_at la1 y)), EOF))
         @ drop (Suc (nat y)) (map data (lines la1))"
      using False pre suf k l1 Cons.prems(1)
      by (intro Cons.IH) (auto simp: dl_def min_def dest: in_set_takeD in_set_dropD)
    moreover have "take (nat (x + 1)) (data (line_at la1 y)) @ vs @ drop (nat (x + 1)) (data (line_at la1 y))
        = take k dl @ (v # vs) @ drop k dl"
      using k by (simp add: l1 nat_add_distrib dl_def)
    moreover have "take (nat y) (map data (lines la1)) = take (nat y) (map data (lines la))"
      "drop (Suc (nat y)) (map data (lines la1)) = drop (Suc (nat y)) (map data (lines la))"
      by (simp_all add: la1_def map_update)
    ultimately show ?thesis
      using False ib k by (simp add: dl_def)
  next
    case True
    define a where "a = (line_at la y)\<lparr>data := take k dl, state := None, match := None, rehighlight := True\<rparr>"
    define b :: Line where "b = \<lparr>data = drop k dl, state = state (line_at la y), match = None, rehighlight = False\<rparr>"
    define la1 where "la1 = la\<lparr>lines := take n (lines la) @ [a, b] @ drop (Suc n) (lines la)\<rparr>"
    have sp: "Split (Suc d) la \<lparr>X = x, Y = y\<rparr> = Inr la1"
      using Split_no_LF [of la y x d] Cons.prems k suf
      by (simp add: la1_def a_def b_def dl_def n)
    have l1: "line_ok la1 (y + 1)" "data (line_at la1 (y + 1)) = drop k dl"
      using n by (simp_all add: la1_def line_ok_def line_at_def nth_append nat_add_distrib b_def)
    have "\<exists>la'. insert_loop (Suc d) la1 0 (y + 1) vs = Inr la' \<and>
       map data (lines la') = take (nat (y + 1)) (map data (lines la1))
         @ map data (NewLineArray_loop []
             (take (nat 0) (data (line_at la1 (y + 1))) @ vs @ drop (nat 0) (data (line_at la1 (y + 1))), EOF))
         @ drop (Suc (nat (y + 1))) (map data (lines la1))"
      using l1 suf by (intro Cons.IH) simp_all
    then obtain la' where la': "insert_loop (Suc d) la1 0 (y + 1) vs = Inr la'"
      "map data (lines la') = take (Suc n) (map data (lines la1))
         @ map data (NewLineArray_loop [] (vs @ drop k dl, EOF))
         @ drop (Suc (Suc n)) (map data (lines la1))"
      by (auto simp: l1 [unfolded n(1)] n nat_add_distrib)
    have "take (Suc n) (map data (lines la1)) = take n (map data (lines la)) @ [take k dl]"
      "drop (Suc (Suc n)) (map data (lines la1)) = drop (Suc n) (map data (lines la))"
      using n by (simp_all add: la1_def a_def take_map drop_map)
    moreover have "NewLineArray_loop [] (take k dl @ (LF # vs) @ drop k dl, EOF)
        = new_Line (take k dl) # NewLineArray_loop [] (vs @ drop k dl, EOF)"
      using pre by (simp add: NewLineArray_loop_Cons)
    ultimately show ?thesis
      using True sp la' k n by (simp add: dl_def new_Line_def)
  qed
qed

lemma runeToByteIndex_RuneCount:
  assumes "0 \<le> k" "k \<le> int (RuneCount bs)"
  shows "int (RuneCount (take (nat (runeToByteIndex k bs)) bs)) = k"
proof (cases "k = 0")
  case True
  then show ?thesis by simp
next
  case False
  with assms have "0 < k" "k - 0 \<le> int (RuneCount bs)" by simp_all
  from runeToByteIndex_loop_prefix [OF this, of 0]
  obtain off where "runeToByteIndex_loop k bs 0 0 = int off" "RuneCount (take off bs) = nat k"
    by auto
  with False assms show ?thesis by (simp add: runeToByteIndex_def)
qed

lemma insert_LF_step:
  assumes inv: "LF \<notin> set (data (line_at la (Y pos)))" and ok: "line_ok la (Y pos)"
    and v1: "LF \<notin> set v1"
  defines "x \<equiv> runeToByteIndex (X pos) (data (line_at la (Y pos)))"
  shows "\<exists>la1 la2. insert (Suc d) la pos v1 = Inr la1 \<and>
     Split (Suc d) la1 \<lparr>X = x + int (length v1), Y = Y pos\<rparr> = Inr la2 \<and>
     insert (Suc d) la pos (v1 @ LF # v2) = insert (Suc d) la2 \<lparr>X = 0, Y = Y pos + 1\<rparr> v2"
proof -
  define y where "y = Y pos"
  define dl where "dl = data (line_at la y)"
  obtain k where k: "x = int k" "k \<le> length dl"
    using runeToByteIndex_bounds [of "X pos" dl]
    by (auto simp: x_def dl_def y_def elim: nonneg_int_cases)
  obtain n where n: "y = int n" "n < length (lines la)"
    using ok by (auto simp: line_ok_def y_def elim: nonneg_int_cases)
  have xk: "runeToByteIndex (X pos) dl = int k"
    using k by (simp add: x_def dl_def y_def)
  define la1 where "la1 = set_line la y ((line_at la y)\<lparr>data := take k dl @ v1 @ drop k dl\<rparr>)"
  have i1: "insert (Suc d) la pos v1 = Inr la1"
    using insert_no_LF [OF v1 ok, of "Suc d"]
    by (simp add: la1_def y_def [symmetric] dl_def [symmetric] xk)
  have l1: "line_ok la1 y" "line_at la1 y = (line_at la y)\<lparr>data := take k dl @ v1 @ drop k dl\<rparr>"
    using ok by (simp_all add: la1_def y_def)
  have tail: "drop (k + length v1) (take k dl @ v1 @ drop k dl) = drop k dl"
    using k by simp
  have "LF \<notin> set (drop k dl)"
    using inv by (auto simp: dl_def y_def dest: in_set_dropD)
  then have "LF \<notin> set (drop (nat (int k + int (length v1))) (data (line_at la1 y)))"
    using tail by (simp add: l1 nat_add_distrib)
  moreover have "int k + int (length v1) \<le> int (length (data (line_at la1 y)))"
    using k by (simp add: l1)
  ultimately obtain la2 where sp: "Split (Suc d) la1 \<lparr>X = int k + int (length v1), Y = y\<rparr> = Inr la2"
    and len2: "length (lines la2) = Suc (length (lines la1))"
    using Split_no_LF [of la1 y "int k + int (length v1)" d] l1(1) n
    by (auto simp: line_ok_def)
  have ok2: "line_ok la2 (y + 1)"
    using l1(1) len2 by (simp add: line_ok_def)
  have "insert (Suc d) la pos (v1 @ LF # v2) = insert_loop (Suc d) la1 (int k + int (length v1)) y (LF # v2)"
    using insert_loop_append [OF v1, of la y "int k" "Suc d" "LF # v2"] ok k
    by (simp add: insert.simps y_def [symmetric] dl_def [symmetric] xk la1_def)
  also have "\<dots> = insert_loop (Suc d) la2 0 (y + 1) v2"
    using sp by simp
  also have "\<dots> = insert (Suc d) la2 \<lparr>X = 0, Y = y + 1\<rparr> v2"
    using ok2 by (simp add: insert.simps)
  finally show ?thesis
    using i1 sp k by (auto simp: y_def)
qed

subsection \<open>The cut points and the text of a removal\<close>

lemma NewLineArray_loop_empty_iff:
  "NewLineArray_loop ls (bs, e) = [] \<longleftrightarrow> ls = [] \<and> e = ReadError \<and> LF \<notin> set bs"
proof (induct ls bs rule: NewLineArray_loop_induct)
  case (final a ls)
  then show ?case by (cases e) (simp_all add: NewLineArray_loop_end)
next
  case (line a rest ls)
  then show ?case by (simp add: NewLineArray_loop_LF)
qed

lemma runeToByteIndex_loop_suffix:
  "i < n \<Longrightarrow> n - i \<le> int (RuneCount txt) \<Longrightarrow>
   \<exists>off. runeToByteIndex_loop n txt count i = count + int off \<and>
     RuneCount (drop off txt) + nat (n - i) = RuneCount txt"
proof (induction n "txt" count i rule: runeToByteIndex_loop.induct)
  case (1 n bs count i)
  show ?case
  proof (cases "bs = []")
    case True
    with "1.prems" show ?thesis by simp
  next
    case False
    define size where "size = RuneCount_step bs"
    have sz: "snd (DecodeRune bs) = size" "1 \<le> size" "size \<le> length bs"
      using False RuneCount_step_pos [of bs]
      by (simp_all add: size_def DecodeRune_size RuneCount_step_le)
    have rc: "RuneCount bs = Suc (RuneCount (drop size bs))"
      using False by (simp add: size_def RuneCount_nonempty)
    show ?thesis
    proof (cases "i + 1 = n")
      case True
      have "runeToByteIndex_loop n bs count i = count + int size"
        using False True sz by (subst runeToByteIndex_loop.simps) (simp add: Let_def)
      moreover have "RuneCount (drop size bs) + nat (n - i) = RuneCount bs"
        using True rc by simp
      ultimately show ?thesis by blast
    next
      case neq: False
      have step: "runeToByteIndex_loop n bs count i =
          runeToByteIndex_loop n (drop size bs) (count + int size) (i + 1)"
        using False neq sz by (subst runeToByteIndex_loop.simps) (simp add: Let_def)
      have "\<exists>off. runeToByteIndex_loop n (drop size bs) (count + int size) (i + 1) =
          (count + int size) + int off \<and>
          RuneCount (drop off (drop size bs)) + nat (n - (i + 1)) = RuneCount (drop size bs)"
        using "1.prems" neq rc
        by (intro "1.IH" [OF False]) (simp_all add: sz)
      then obtain off where off:
        "runeToByteIndex_loop n (drop size bs) (count + int size) (i + 1) = (count + int size) + int off"
        "RuneCount (drop off (drop size bs)) + nat (n - (i + 1)) = RuneCount (drop size bs)"
        by blast
      have "RuneCount (drop (size + off) bs) + nat (n - i) = RuneCount bs"
        using off(2) rc "1.prems" neq by (simp add: add.commute nat_diff_distrib)
      moreover have "runeToByteIndex_loop n bs count i = count + int (size + off)"
        using step off(1) by simp
      ultimately show ?thesis by blast
    qed
  qed
qed

lemma runeToByteIndex_RuneCount_drop:
  assumes "0 \<le> k" "k \<le> int (RuneCount bs)"
  shows "int (RuneCount (drop (nat (runeToByteIndex k bs)) bs)) = int (RuneCount bs) - k"
proof (cases "k = 0")
  case True
  then show ?thesis by simp
next
  case False
  with assms have "0 < k" "k - 0 \<le> int (RuneCount bs)" by simp_all
  from runeToByteIndex_loop_suffix [OF this, of 0]
  obtain off where "runeToByteIndex_loop k bs 0 0 = int off"
    "RuneCount (drop off bs) + nat k = RuneCount bs"
    by auto
  with False assms show ?thesis by (simp add: runeToByteIndex_def)
qed

lemma join_lines_first:
  "join_lines sep (l # ys) = data l @ concat (map (\<lambda>l. sep @ data l) ys)"
  by (induction ys arbitrary: l) simp_all

lemma join_lines_mid:
  "join_lines sep (xs @ l # ys) =
     concat (map (\<lambda>l. data l @ sep) xs) @ data l @ concat (map (\<lambda>l. sep @ data l) ys)"
proof (induction xs)
  case Nil
  show ?case by (simp add: join_lines_first)
next
  case (Cons x xs)
  have "join_lines sep (x # (xs @ l # ys)) = data x @ sep @ join_lines sep (xs @ l # ys)"
    by (rule join_lines_Cons) simp
  with Cons show ?case by simp
qed

lemma concat_sep_shift:
  "concat (map (\<lambda>l. sep @ data l) ms) @ sep = sep @ concat (map (\<lambda>l. data l @ sep) ms)"
  by (induction ms) simp_all

lemma map_line_at_upto:
  "0 \<le> a \<Longrightarrow> b < int (length (lines la)) \<Longrightarrow>
   map (\<lambda>i. f (line_at la i)) [a..b] = map f (take (nat (b - a + 1)) (drop (nat a) (lines la)))"
proof (induction "nat (b - a + 1)" arbitrary: a)
  case 0
  then show ?case by simp
next
  case (Suc k)
  then have ab: "a \<le> b" "nat a < length (lines la)" by simp_all
  have k: "k = nat (b - (a + 1) + 1)" using Suc.hyps(2) by simp
  have "map (\<lambda>i. f (line_at la i)) [a + 1..b]
      = map f (take (nat (b - (a + 1) + 1)) (drop (nat (a + 1)) (lines la)))"
    using Suc.prems by (intro Suc.hyps(1) [OF k]) simp_all
  moreover have "[a..b] = a # [a + 1..b]" using ab by (simp add: upto_rec1)
  moreover have "take (nat (b - a + 1)) (drop (nat a) (lines la))
      = lines la ! nat a # take (nat (b - (a + 1) + 1)) (drop (nat (a + 1)) (lines la))"
    using ab Suc.prems Suc.hyps(2) [symmetric] k
    by (simp add: Cons_nth_drop_Suc [symmetric] nat_add_distrib)
  ultimately show ?case by (simp add: line_at_def)
qed

lemma Substr_text:
  assumes oks: "line_ok la (Y start)" and oke: "line_ok la (Y end)"
    and le: "Y start < Y end \<or> (Y start = Y end \<and>
       runeToByteIndex (X start) (data (line_at la (Y start)))
         \<le> runeToByteIndex (X end) (data (line_at la (Y end))))"
  shows "Substr la start end = Inr
     (if Y start = Y end then
        take (nat (runeToByteIndex (X end) (data (line_at la (Y end))))
              - nat (runeToByteIndex (X start) (data (line_at la (Y start)))))
          (drop (nat (runeToByteIndex (X start) (data (line_at la (Y start)))))
             (data (line_at la (Y start))))
      else
        drop (nat (runeToByteIndex (X start) (data (line_at la (Y start))))) (data (line_at la (Y start)))
        @ [LF]
        @ concat (map (\<lambda>l. data l @ [LF])
            (take (nat (Y end - Y start) - 1) (drop (Suc (nat (Y start))) (lines la))))
        @ take (nat (runeToByteIndex (X end) (data (line_at la (Y end))))) (data (line_at la (Y end))))"
proof (cases "Y start = Y end")
  case True
  with le oks show ?thesis by (simp add: Substr_def Let_def)
next
  case False
  with le have lt: "Y start < Y end" by simp
  have "map (\<lambda>i. data (line_at la i) @ [LF]) [Y start + 1..Y end - 1]
      = map (\<lambda>l. data l @ [LF])
          (take (nat (Y end - 1 - (Y start + 1) + 1)) (drop (nat (Y start + 1)) (lines la)))"
    using oks oke by (intro map_line_at_upto) (simp_all add: line_ok_def)
  moreover have "nat (Y end - 1 - (Y start + 1) + 1) = nat (Y end - Y start) - 1"
    using lt by simp
  moreover have "nat (Y start + 1) = Suc (nat (Y start))"
    using oks by (simp add: line_ok_def nat_add_distrib)
  ultimately show ?thesis
    using False oks oke by (simp add: Substr_def Let_def)
qed

lemma join_lines_cut:
  assumes mn: "m \<le> n" and n: "n < length L"
    and sx: "sx \<le> length (data (L ! m))" and ex: "ex \<le> length (data (L ! n))"
    and same: "m = n \<longrightarrow> sx \<le> ex"
  shows "join_lines sep L =
       (concat (map (\<lambda>l. data l @ sep) (take m L)) @ take sx (data (L ! m)))
       @ (if m = n then take (ex - sx) (drop sx (data (L ! m)))
          else drop sx (data (L ! m)) @ sep
            @ concat (map (\<lambda>l. data l @ sep) (take (n - m - 1) (drop (Suc m) L)))
            @ take ex (data (L ! n)))
       @ (drop ex (data (L ! n)) @ concat (map (\<lambda>l. sep @ data l) (drop (Suc n) L)))"
proof (cases "m = n")
  case True
  have "L = take m L @ L ! m # drop (Suc m) L"
    using n True by (simp add: id_take_nth_drop)
  then have "join_lines sep L = concat (map (\<lambda>l. data l @ sep) (take m L)) @ data (L ! m)
      @ concat (map (\<lambda>l. sep @ data l) (drop (Suc m) L))"
    using join_lines_mid [of sep "take m L" "L ! m" "drop (Suc m) L"] by simp
  moreover have "data (L ! m) = take sx (data (L ! m)) @ take (ex - sx) (drop sx (data (L ! m)))
      @ drop ex (data (L ! m))"
  proof -
    have "drop sx (data (L ! m)) = take (ex - sx) (drop sx (data (L ! m)))
        @ drop (ex - sx) (drop sx (data (L ! m)))"
      by (rule append_take_drop_id [symmetric])
    moreover have "drop (ex - sx) (drop sx (data (L ! m))) = drop ex (data (L ! m))"
      using same True by simp
    ultimately have "drop sx (data (L ! m)) = take (ex - sx) (drop sx (data (L ! m)))
        @ drop ex (data (L ! m))" by simp
    then show ?thesis
      using append_take_drop_id [of sx "data (L ! m)"] by metis
  qed
  ultimately show ?thesis using True by simp
next
  case False
  with mn have lt: "m < n" by simp
  define mid where "mid = take (n - m - 1) (drop (Suc m) L)"
  have m: "m < length L" using lt n by simp
  have "drop (Suc m) L = take (n - m - 1) (drop (Suc m) L) @ drop (n - m - 1) (drop (Suc m) L)"
    by (rule append_take_drop_id [symmetric])
  moreover have "drop (n - m - 1) (drop (Suc m) L) = drop n L"
    using lt by simp
  moreover have "drop n L = L ! n # drop (Suc n) L"
    using n by (simp add: Cons_nth_drop_Suc)
  ultimately have d: "drop (Suc m) L = mid @ L ! n # drop (Suc n) L"
    by (simp add: mid_def)
  have "L = take m L @ L ! m # drop (Suc m) L"
    using m by (simp add: id_take_nth_drop)
  then have "join_lines sep L = concat (map (\<lambda>l. data l @ sep) (take m L)) @ data (L ! m)
      @ concat (map (\<lambda>l. sep @ data l) (drop (Suc m) L))"
    using join_lines_mid [of sep "take m L" "L ! m" "drop (Suc m) L"] by simp
  also have "concat (map (\<lambda>l. sep @ data l) (drop (Suc m) L))
      = (concat (map (\<lambda>l. sep @ data l) mid) @ sep) @ data (L ! n)
        @ concat (map (\<lambda>l. sep @ data l) (drop (Suc n) L))"
    by (simp add: d)
  also have "concat (map (\<lambda>l. sep @ data l) mid) @ sep
      = sep @ concat (map (\<lambda>l. data l @ sep) mid)"
    by (rule concat_sep_shift)
  finally have "join_lines sep L = concat (map (\<lambda>l. data l @ sep) (take m L))
      @ (take sx (data (L ! m)) @ drop sx (data (L ! m)))
      @ (sep @ concat (map (\<lambda>l. data l @ sep) mid))
      @ (take ex (data (L ! n)) @ drop ex (data (L ! n)))
      @ concat (map (\<lambda>l. sep @ data l) (drop (Suc n) L))"
    by simp
  then show ?thesis using False by (simp add: mid_def)
qed

lemma join_lines_spliced:
  "join_lines sep (xs @ [l\<lparr>data := a @ b\<rparr>] @ ys) =
     (concat (map (\<lambda>l. data l @ sep) xs) @ a) @ (b @ concat (map (\<lambda>l. sep @ data l) ys))"
  using join_lines_mid [of sep xs "l\<lparr>data := a @ b\<rparr>" ys] by simp

section \<open>Properties of brace matching\<close>

lemma bscan_fscan: "opn \<noteq> cls \<Longrightarrow> bscan opn cls rs i = fscan cls opn rs i"
  by (induction rs arbitrary: i) auto

lemma depth_simps [simp]:
  "depth opn cls [] = 0"
  "depth opn cls (r # rs) = weight opn cls r + depth opn cls rs"
  "depth opn cls (xs @ ys) = depth opn cls xs + depth opn cls ys"
  by (simp_all add: depth_def)

lemma depth_rev [simp]: "depth opn cls (rev xs) = depth opn cls xs"
  by (induction xs) simp_all

lemma hit_0: "hit opn cls (r # rs) i 0 \<longleftrightarrow> r \<noteq> opn \<and> r = cls \<and> i - 1 = 0"
  by (auto simp: hit_def weight_def)

lemma hit_Suc: "hit opn cls (r # rs) i (Suc k) \<longleftrightarrow> hit opn cls rs (i + weight opn cls r) k"
  by (simp add: hit_def add.assoc)

lemma fscan_Cons:
  "fscan opn cls (r # rs) i =
     (if hit opn cls (r # rs) i 0 then Inl 0
      else map_sum Suc id (fscan opn cls rs (i + weight opn cls r)))"
  by (auto simp: hit_0 weight_def)

declare fscan.simps(2) [simp del]

lemma fscan_sound:
  "fscan opn cls rs i = Inl k \<Longrightarrow>
   k < length rs \<and> hit opn cls rs i k \<and> (\<forall>j<k. \<not> hit opn cls rs i j)"
proof (induction rs arbitrary: i k)
  case Nil
  then show ?case by simp
next
  case (Cons r rs)
  show ?case
  proof (cases "hit opn cls (r # rs) i 0")
    case True
    with Cons.prems have "k = 0" by (simp add: fscan_Cons)
    with True show ?thesis by simp
  next
    case False
    with Cons.prems obtain k' where k': "k = Suc k'" "fscan opn cls rs (i + weight opn cls r) = Inl k'"
      by (cases "fscan opn cls rs (i + weight opn cls r)") (auto simp: fscan_Cons)
    from Cons.IH [OF k'(2)]
    have ih: "k' < length rs" "hit opn cls rs (i + weight opn cls r) k'"
      "\<forall>j<k'. \<not> hit opn cls rs (i + weight opn cls r) j" by simp_all
    have "\<not> hit opn cls (r # rs) i j" if "j < k" for j
    proof (cases j)
      case 0
      with False show ?thesis by simp
    next
      case (Suc j')
      with that k' ih(3) show ?thesis by (simp add: hit_Suc)
    qed
    with ih k' show ?thesis by (simp add: hit_Suc)
  qed
qed

lemma fscan_complete:
  "k < length rs \<Longrightarrow> hit opn cls rs i k \<Longrightarrow> (\<forall>j<k. \<not> hit opn cls rs i j) \<Longrightarrow>
   fscan opn cls rs i = Inl k"
proof (induction rs arbitrary: i k)
  case Nil
  then show ?case by simp
next
  case (Cons r rs)
  show ?case
  proof (cases k)
    case 0
    with Cons.prems show ?thesis by (simp add: fscan_Cons)
  next
    case (Suc k')
    have no0: "\<not> hit opn cls (r # rs) i 0" using Cons.prems(3) Suc by simp
    have "fscan opn cls rs (i + weight opn cls r) = Inl k'"
    proof (rule Cons.IH)
      show "k' < length rs" using Cons.prems(1) Suc by simp
      show "hit opn cls rs (i + weight opn cls r) k'"
        using Cons.prems(2) Suc by (simp add: hit_Suc)
      show "\<forall>j<k'. \<not> hit opn cls rs (i + weight opn cls r) j"
      proof (intro allI impI)
        fix j assume "j < k'"
        then have "\<not> hit opn cls (r # rs) i (Suc j)" using Cons.prems(3) Suc by simp
        then show "\<not> hit opn cls rs (i + weight opn cls r) j" by (simp add: hit_Suc)
      qed
    qed
    with no0 Suc show ?thesis by (simp add: fscan_Cons)
  qed
qed

lemma weight_swap: "opn \<noteq> cls \<Longrightarrow> weight cls opn r = - weight opn cls r"
  by (simp add: weight_def)

lemma depth_swap: "opn \<noteq> cls \<Longrightarrow> depth cls opn rs = - depth opn cls rs"
  by (induction rs) (simp_all add: weight_swap [of opn cls])

lemma depth_positive:
  assumes f: "fscan opn cls xs 0 = Inl k" and hd: "xs \<noteq> []" "hd xs = opn"
    and j: "1 \<le> j" "j \<le> k"
  shows "1 \<le> depth opn cls (take j xs)"
  using j
proof (induction j)
  case 0
  then show ?case by simp
next
  case (Suc j)
  from fscan_sound [OF f] have k: "k < length xs" and min: "\<forall>j<k. \<not> hit opn cls xs 0 j" by simp_all
  show ?case
  proof (cases "j = 0")
    case True
    then show ?thesis using hd by (cases xs) (simp_all add: weight_def)
  next
    case False
    then have ih: "1 \<le> depth opn cls (take j xs)" using Suc by simp
    have jl: "j < length xs" "j < k" using Suc.prems k by simp_all
    have d: "depth opn cls (take (Suc j) xs) = depth opn cls (take j xs) + weight opn cls (xs ! j)"
      using jl by (simp add: take_Suc_conv_app_nth)
    have "\<not> hit opn cls xs 0 j" using min jl by simp
    then have "\<not> (weight opn cls (xs ! j) = - 1 \<and> depth opn cls (take (Suc j) xs) = 0)"
      by (auto simp: hit_def weight_def split: if_splits)
    moreover have "- 1 \<le> weight opn cls (xs ! j)" by (simp add: weight_def)
    ultimately show ?thesis using ih d by linarith
  qed
qed

lemma fscan_reverse:
  assumes ne: "opn \<noteq> cls" and f: "fscan opn cls xs 0 = Inl k" and hd: "xs \<noteq> []" "hd xs = opn"
  shows "fscan cls opn (rev (take (Suc k) xs)) 0 = Inl k"
proof (rule fscan_complete)
  from fscan_sound [OF f] have k: "k < length xs" and h: "hit opn cls xs 0 k" by simp_all
  let ?ys = "rev (take (Suc k) xs)"
  have len: "length ?ys = Suc k" using k by simp
  show "k < length ?ys" using len by simp
  have total: "depth opn cls (take (Suc k) xs) = 0" using h by (simp add: hit_def)
  have nth: "?ys ! j = xs ! (k - j)" if "j \<le> k" for j
    using that k by (simp add: rev_nth)
  have dep: "depth cls opn (take (Suc j) ?ys) = depth opn cls (take (k - j) xs)" if "j \<le> k" for j
  proof -
    have "take (Suc j) ?ys = rev (drop (k - j) (take (Suc k) xs))"
      using that k by (simp add: take_rev Suc_diff_le)
    then have "depth cls opn (take (Suc j) ?ys) = - depth opn cls (drop (k - j) (take (Suc k) xs))"
      by (simp add: depth_swap [OF ne])
    moreover have "depth opn cls (take (Suc k) xs) =
        depth opn cls (take (k - j) (take (Suc k) xs)) + depth opn cls (drop (k - j) (take (Suc k) xs))"
      by (metis append_take_drop_id depth_simps(3))
    moreover have "take (k - j) (take (Suc k) xs) = take (k - j) xs"
      by (simp add: min_absorb1)
    ultimately show ?thesis using total by simp
  qed
  show "hit cls opn ?ys 0 k"
    using hd ne nth [of k] dep [of k] by (cases xs) (simp_all add: hit_def)
  show "\<forall>j<k. \<not> hit cls opn ?ys 0 j"
  proof (intro allI impI)
    fix j assume j: "j < k"
    then have "1 \<le> depth opn cls (take (k - j) xs)"
      by (intro depth_positive [OF f hd]) simp_all
    then show "\<not> hit cls opn ?ys 0 j"
      using dep [of j] j by (simp add: hit_def)
  qed
qed

lemma fscan_found_char:
  "fscan opn cls rs i = Inl k \<Longrightarrow> rs ! k = cls \<and> rs ! k \<noteq> opn"
  using fscan_sound [of opn cls rs i k] by (auto simp: hit_def)

lemma fscan_append:
  "fscan opn cls (xs @ ys) i =
     (case fscan opn cls xs i of
        Inl k \<Rightarrow> Inl k
      | Inr i' \<Rightarrow> map_sum (\<lambda>k. length xs + k) id (fscan opn cls ys i'))"
proof (induction xs arbitrary: i)
  case Nil
  show ?case by (cases "fscan opn cls ys i") simp_all
next
  case (Cons r rs)
  show ?case
  proof (cases "hit opn cls (r # rs) i 0")
    case True
    then have "hit opn cls ((r # rs) @ ys) i 0" by (auto simp: hit_0)
    with True show ?thesis by (simp add: fscan_Cons)
  next
    case False
    then have "\<not> hit opn cls ((r # rs) @ ys) i 0" by (auto simp: hit_0)
    with False show ?thesis
      by (cases "fscan opn cls rs (i + weight opn cls r)";
          cases "fscan opn cls ys (projr (fscan opn cls rs (i + weight opn cls r)))")
        (simp_all add: fscan_Cons Cons)
  qed
qed

lemma forward_columns_fscan:
  "n = nat (int (length l) - x) \<Longrightarrow> 0 \<le> x \<Longrightarrow> x \<le> int (length l) \<Longrightarrow>
   forward_columns opn cls l x i =
     Inr (case fscan opn cls (drop (nat x) l) i of Inl k \<Rightarrow> Found (x + int k) | Inr i' \<Rightarrow> Depth i')"
proof (induction n arbitrary: x i)
  case 0
  then show ?case by (subst forward_columns.simps) simp
next
  case (Suc n)
  then have x: "x < int (length l)" "nat x < length l" by simp_all
  have d: "drop (nat x) l = l ! nat x # drop (nat (x + 1)) l"
    using x Suc.prems by (simp add: Cons_nth_drop_Suc nat_add_distrib)
  have ih: "forward_columns opn cls l (x + 1) j =
     Inr (case fscan opn cls (drop (nat (x + 1)) l) j of
            Inl k \<Rightarrow> Found (x + 1 + int k) | Inr i' \<Rightarrow> Depth i')"
    for j using Suc.prems by (intro Suc.IH) simp_all
  have step: "forward_columns opn cls l x i =
     (if l ! nat x = opn then forward_columns opn cls l (x + 1) (i + 1)
      else if l ! nat x = cls then
        (if i - 1 = 0 then Inr (Found x) else forward_columns opn cls l (x + 1) (i - 1))
      else forward_columns opn cls l (x + 1) i)"
    using x Suc.prems(2) by (subst forward_columns.simps) (simp add: Let_def)
  show ?case
    unfolding step d fscan.simps ih
    by (auto split: sum.splits)
qed

lemma backward_columns_bscan:
  "m = nat (x + 1) \<Longrightarrow> - 1 \<le> x \<Longrightarrow> x < int (length l) \<Longrightarrow>
   backward_columns opn cls l x i =
     Inr (case bscan opn cls (rev (take (nat (x + 1)) l)) i of
            Inl k \<Rightarrow> Found (x - int k) | Inr i' \<Rightarrow> Depth i')"
proof (induction m arbitrary: x i)
  case 0
  then have "x = - 1" by simp
  then show ?case by (subst backward_columns.simps) simp
next
  case (Suc m)
  then have x: "0 \<le> x" "nat x < length l" by simp_all
  have d: "rev (take (nat (x + 1)) l) = l ! nat x # rev (take (nat (x - 1 + 1)) l)"
    using x by (simp add: take_Suc_conv_app_nth nat_add_distrib)
  have ih: "backward_columns opn cls l (x - 1) j =
     Inr (case bscan opn cls (rev (take (nat (x - 1 + 1)) l)) j of
            Inl k \<Rightarrow> Found (x - 1 - int k) | Inr i' \<Rightarrow> Depth i')"
    for j using Suc.prems by (intro Suc.IH) simp_all
  have step: "backward_columns opn cls l x i =
     (if l ! nat x = opn then
        (if i - 1 = 0 then Inr (Found x) else backward_columns opn cls l (x - 1) (i - 1))
      else if l ! nat x = cls then backward_columns opn cls l (x - 1) (i + 1)
      else backward_columns opn cls l (x - 1) i)"
    using x Suc.prems(3) by (subst backward_columns.simps) (simp add: Let_def)
  show ?case
    unfolding step d bscan.simps ih
    by (auto split: sum.splits)
qed

lemma map_snd_cells [simp]: "map snd (cells y ls) = concat ls"
  by (induction ls arbitrary: y) (simp_all add: comp_def map_nth)

lemma length_cells [simp]: "length (cells y ls) = length (concat ls)"
  by (induction ls arbitrary: y) simp_all

lemma cells_append: "cells y (xs @ ys) = cells y xs @ cells (y + length xs) ys"
  by (induction xs arbitrary: y) simp_all

lemma cells_row_nth:
  "x < length l \<Longrightarrow> cells y (l # ls) ! x = (\<lparr>X = int x, Y = int y\<rparr>, l ! x)"
  by (simp add: nth_append)

lemma cells_decompose:
  "y < length R \<Longrightarrow>
   cells 0 R = cells 0 (take y R) @ cells y [R ! y] @ cells (Suc y) (drop (Suc y) R)"
proof -
  assume y: "y < length R"
  then have "R = take y R @ [R ! y] @ drop (Suc y) R"
    by (simp add: id_take_nth_drop [symmetric])
  then have "cells 0 R = cells 0 (take y R @ [R ! y] @ drop (Suc y) R)" by simp
  also have "\<dots> = cells 0 (take y R) @ cells y [R ! y] @ cells (Suc y) (drop (Suc y) R)"
    using y by (simp add: cells_append min_def)
  finally show ?thesis .
qed

lemma cells_nth_loc:
  "q < length (cells y0 ls) \<Longrightarrow>
   \<exists>j x. j < length ls \<and> x < length (ls ! j) \<and> q = length (concat (take j ls)) + x \<and>
     cells y0 ls ! q = (\<lparr>X = int x, Y = int (y0 + j)\<rparr>, ls ! j ! x)"
proof (induction ls arbitrary: y0 q)
  case Nil
  then show ?case by simp
next
  case (Cons l ls)
  show ?case
  proof (cases "q < length l")
    case True
    then have "cells y0 (l # ls) ! q = (\<lparr>X = int q, Y = int (y0 + 0)\<rparr>, (l # ls) ! 0 ! q)"
      by (simp add: nth_append)
    with True show ?thesis by (intro exI [of _ 0] exI [of _ q]) simp
  next
    case False
    then have q: "q - length l < length (cells (Suc y0) ls)" using Cons.prems by simp
    from Cons.IH [OF this] obtain j x where jx: "j < length ls" "x < length (ls ! j)"
      "q - length l = length (concat (take j ls)) + x"
      "cells (Suc y0) ls ! (q - length l) = (\<lparr>X = int x, Y = int (Suc y0 + j)\<rparr>, ls ! j ! x)"
      by blast
    have "cells y0 (l # ls) ! q = cells (Suc y0) ls ! (q - length l)"
      using False by (simp add: nth_append)
    with jx False show ?thesis
      by (intro exI [of _ "Suc j"] exI [of _ x]) simp
  qed
qed

lemma LineRunes_buffer_runes:
  "y < length (lines (LineArray b)) \<Longrightarrow> LineRunes b (int y) = Inr (buffer_runes b ! y)"
  by (simp add: LineRunes_def toRunes_def buffer_runes_def line_at_def)

lemma forward_lines_fscan:
  assumes sync: "NumLines b = int (length (lines (LineArray b)))"
  shows "n = length (buffer_runes b) - y \<Longrightarrow> y \<le> length (buffer_runes b) \<Longrightarrow>
     Y start \<le> int y \<Longrightarrow>
     (if int y = Y start then X start = int x else x = 0) \<Longrightarrow>
     (y < length (buffer_runes b) \<longrightarrow> x \<le> length (buffer_runes b ! y)) \<Longrightarrow>
     forward_lines b opn cls start (int y) i =
       Inr (case fscan opn cls (map snd (drop x (cells y (drop y (buffer_runes b))))) i of
              Inl k \<Rightarrow> fst (drop x (cells y (drop y (buffer_runes b))) ! k)
            | Inr i' \<Rightarrow> start)"
proof (induction n arbitrary: y x i)
  case 0
  then have "y = length (lines (LineArray b))" by (simp add: buffer_runes_def)
  then show ?case
    using sync by (subst forward_lines.simps) (simp add: buffer_runes_def)
next
  case (Suc n)
  define R where "R = buffer_runes b"
  have N: "length R = length (lines (LineArray b))" by (simp add: R_def buffer_runes_def)
  have y: "y < length R" using Suc.prems by (simp add: R_def)
  define l where "l = R ! y"
  define row where "row = map (\<lambda>x. (\<lparr>X = int x, Y = int y\<rparr>, l ! x)) [0..<length l]"
  define rest where "rest = cells (Suc y) (drop (Suc y) R)"
  have x: "x \<le> length l" using Suc.prems y by (simp add: R_def l_def)
  have cs: "drop x (cells y (drop y R)) = drop x row @ rest"
    using y x by (simp add: Cons_nth_drop_Suc [symmetric] row_def rest_def l_def)
  have ms: "map snd (drop x row) = drop x l"
    by (simp add: row_def drop_map comp_def map_nth flip: drop_map)
  have x0: "(if int y = Y start then X start else 0) = int x"
    using Suc.prems(4) by (simp split: if_splits)
  have step: "forward_lines b opn cls start (int y) i =
     (case fscan opn cls (drop x l) i of
        Inl k \<Rightarrow> Inr \<lparr>X = int x + int k, Y = int y\<rparr>
      | Inr i' \<Rightarrow> forward_lines b opn cls start (int y + 1) i')"
    using y x sync N LineRunes_buffer_runes [of y b]
      forward_columns_fscan [of "length l - x" l "int x" opn cls i]
    by (subst forward_lines.simps) (simp add: x0 R_def [symmetric] l_def [symmetric] split: sum.splits)
  have ih: "forward_lines b opn cls start (int (Suc y)) j =
       Inr (case fscan opn cls (map snd (drop 0 (cells (Suc y) (drop (Suc y) R)))) j of
              Inl k \<Rightarrow> fst (drop 0 (cells (Suc y) (drop (Suc y) R)) ! k)
            | Inr i' \<Rightarrow> start)" for j
    unfolding R_def using Suc.prems by (intro Suc.IH) (auto simp: R_def)
  show ?case
  proof (cases "fscan opn cls (drop x l) i")
    case (Inl k)
    then have k: "k < length (drop x l)" using fscan_sound by blast
    then have "x + k < length l" by simp
    then have "(drop x row @ rest) ! k = (\<lparr>X = int (x + k), Y = int y\<rparr>, l ! (x + k))"
      using k by (simp add: nth_append row_def)
    then show ?thesis
      using Inl by (simp add: step R_def [symmetric] cs ms fscan_append)
  next
    case (Inr i')
    have "(drop x row @ rest) ! (length (drop x l) + k) = rest ! k" for k
      by (simp add: nth_append row_def)
    then show ?thesis
      using Inr ih [of i']
      by (cases "fscan opn cls (concat (drop (Suc y) R)) i'")
        (simp_all add: step R_def [symmetric] cs ms fscan_append rest_def add.commute)
  qed
qed

lemma scan_append_result:
  "(case fscan opn cls (map snd (P @ Q)) i of Inl k \<Rightarrow> f ((P @ Q) ! k) | Inr i' \<Rightarrow> s) =
   (case fscan opn cls (map snd P) i of
      Inl k \<Rightarrow> f (P ! k)
    | Inr i' \<Rightarrow> (case fscan opn cls (map snd Q) i' of Inl k \<Rightarrow> f (Q ! k) | Inr i'' \<Rightarrow> s))"
proof (cases "fscan opn cls (map snd P) i")
  case (Inl k)
  then have "k < length P" using fscan_sound [of opn cls "map snd P" i k] by simp
  with Inl show ?thesis by (simp add: fscan_append nth_append)
next
  case (Inr i')
  then show ?thesis
    by (cases "fscan opn cls (map snd Q) i'") (simp_all add: fscan_append nth_append)
qed

lemma row_backward:
  assumes "m \<le> length l"
  shows "map snd (rev (take m (cells y [l]))) = rev (take m l)"
    and "k < m \<Longrightarrow> fst (rev (take m (cells y [l])) ! k) = \<lparr>X = int m - 1 - int k, Y = int y\<rparr>"
proof -
  have "map snd (cells y [l]) = l" by (simp del: cells.simps)
  then show "map snd (rev (take m (cells y [l]))) = rev (take m l)"
    by (metis rev_map take_map)
  assume k: "k < m"
  then have "m - Suc k < length l" "m - Suc k < m" using assms by simp_all
  then have "rev (take m (cells y [l])) ! k = (\<lparr>X = int (m - Suc k), Y = int y\<rparr>, l ! (m - Suc k))"
    using k assms by (simp add: rev_nth)
  moreover have "int (m - Suc k) = int m - 1 - int k" using k by simp
  ultimately show "fst (rev (take m (cells y [l])) ! k) = \<lparr>X = int m - 1 - int k, Y = int y\<rparr>"
    by simp
qed

lemma backward_lines_step:
  assumes ne: "opn \<noteq> cls" and y: "y < length (buffer_runes b)"
    and x0: "(if int y = Y start then X start = int m - 1 else m = length (buffer_runes b ! y))"
    and m: "m \<le> length (buffer_runes b ! y)"
  shows "backward_lines b opn cls start (int y) i =
     (case fscan cls opn (rev (take m (buffer_runes b ! y))) i of
        Inl k \<Rightarrow> Inr \<lparr>X = int m - 1 - int k, Y = int y\<rparr>
      | Inr i' \<Rightarrow> backward_lines b opn cls start (int y - 1) i')"
proof -
  let ?l = "buffer_runes b ! y"
  have ok: "line_ok (LineArray b) (int y)"
    "decode_runes (data (line_at (LineArray b) (int y))) = ?l"
    using y by (simp_all add: line_ok_def buffer_runes_def line_at_def)
  have x0': "(if int y = Y start then X start else int (length ?l) - 1) = int m - 1"
    using x0 by (simp split: if_splits)
  have ge: "int y \<ge> 0" by simp
  have bc: "backward_columns opn cls ?l (int m - 1) i =
      Inr (case fscan cls opn (rev (take m ?l)) i of
             Inl k \<Rightarrow> Found (int m - 1 - int k) | Inr i' \<Rightarrow> Depth i')"
    using m backward_columns_bscan [of m "int m - 1" ?l opn cls i] bscan_fscan [OF ne] by simp
  have "backward_lines b opn cls start (int y) i =
     (case backward_columns opn cls ?l (int m - 1) i of
        Inl e \<Rightarrow> Inl e
      | Inr (Found x) \<Rightarrow> Inr \<lparr>X = x, Y = int y\<rparr>
      | Inr (Depth i') \<Rightarrow> backward_lines b opn cls start (int y - 1) i')"
    apply (subst backward_lines.simps)
    apply (simp only: Let_def ok x0' ge if_True)
    done
  then show ?thesis
    by (simp add: bc split: sum.splits)
qed

lemma backward_lines_fscan:
  assumes ne: "opn \<noteq> cls"
  shows "y < length (buffer_runes b) \<Longrightarrow> int y \<le> Y start \<Longrightarrow>
     (if int y = Y start then X start = int m - 1 else m = length (buffer_runes b ! y)) \<Longrightarrow>
     m \<le> length (buffer_runes b ! y) \<Longrightarrow>
     backward_lines b opn cls start (int y) i =
       Inr (case fscan cls opn (map snd (rev (cells 0 (take y (buffer_runes b))
                    @ take m (cells y [buffer_runes b ! y])))) i of
              Inl k \<Rightarrow> fst (rev (cells 0 (take y (buffer_runes b))
                    @ take m (cells y [buffer_runes b ! y])) ! k)
            | Inr i' \<Rightarrow> start)"
proof (induction y arbitrary: m i)
  case 0
  let ?l = "buffer_runes b ! 0"
  have bl: "backward_lines b opn cls start (int 0 - 1) j = Inr start" for j
    by (subst backward_lines.simps) simp
  have "backward_lines b opn cls start (int 0) i =
     (case fscan cls opn (rev (take m ?l)) i of
        Inl k \<Rightarrow> Inr \<lparr>X = int m - 1 - int k, Y = int 0\<rparr>
      | Inr i' \<Rightarrow> Inr start)"
    using backward_lines_step [OF ne 0(1,3,4), where i = i] by (simp only: bl)
  also have "\<dots> = Inr (case fscan cls opn (map snd (rev (take m (cells 0 [?l])))) i of
              Inl k \<Rightarrow> fst (rev (take m (cells 0 [?l])) ! k)
            | Inr i' \<Rightarrow> start)"
  proof (cases "fscan cls opn (rev (take m ?l)) i")
    case (Inl k)
    then have "k < m" using fscan_sound [of cls opn "rev (take m ?l)" i k] 0(4) by simp
    with Inl show ?thesis
      using row_backward(1) [OF 0(4), where y = 0] row_backward(2) [OF 0(4), where y = 0 and k = k]
      by (simp del: cells.simps)
  next
    case (Inr i')
    then show ?thesis using row_backward(1) [OF 0(4), where y = 0] by (simp del: cells.simps)
  qed
  finally have r: "backward_lines b opn cls start (int 0) i =
      Inr (case fscan cls opn (map snd (rev (take m (cells 0 [?l])))) i of
              Inl k \<Rightarrow> fst (rev (take m (cells 0 [?l])) ! k)
            | Inr i' \<Rightarrow> start)" .
  have e: "cells 0 (take 0 (buffer_runes b)) @ take m (cells 0 [?l]) = take m (cells 0 [?l])"
    by (simp del: cells.simps(2))
  show ?case unfolding e by (rule r)
next
  case (Suc y)
  let ?R = "buffer_runes b"
  let ?l = "?R ! Suc y"
  let ?P = "rev (take m (cells (Suc y) [?l]))"
  let ?A = "cells 0 (take (Suc y) ?R)"
  have y: "y < length ?R" using Suc.prems by simp
  have A: "?A = cells 0 (take y ?R) @ take (length (?R ! y)) (cells y [?R ! y])"
    using y by (simp add: take_Suc_conv_app_nth cells_append)
  have ih: "backward_lines b opn cls start (int y) j =
       Inr (case fscan cls opn (map snd (rev ?A)) j of
              Inl k \<Rightarrow> fst (rev ?A ! k) | Inr i' \<Rightarrow> start)" for j
    unfolding A using Suc.prems y by (intro Suc.IH) auto
  have pred: "int (Suc y) - 1 = int y" by simp
  have "backward_lines b opn cls start (int (Suc y)) i =
     (case fscan cls opn (rev (take m ?l)) i of
        Inl k \<Rightarrow> Inr \<lparr>X = int m - 1 - int k, Y = int (Suc y)\<rparr>
      | Inr i' \<Rightarrow> backward_lines b opn cls start (int y) i')"
    using backward_lines_step [OF ne Suc.prems(1,3,4), where i = i] by (simp only: pred)
  also have "\<dots> = Inr (case fscan cls opn (map snd ?P) i of
        Inl k \<Rightarrow> fst (?P ! k)
      | Inr i' \<Rightarrow> (case fscan cls opn (map snd (rev ?A)) i' of
           Inl k \<Rightarrow> fst (rev ?A ! k) | Inr i'' \<Rightarrow> start))"
  proof (cases "fscan cls opn (rev (take m ?l)) i")
    case (Inl k)
    then have "k < m" using fscan_sound [of cls opn "rev (take m ?l)" i k] Suc.prems(4) by simp
    with Inl show ?thesis
      using row_backward(1) [OF Suc.prems(4), where y = "Suc y"]
        row_backward(2) [OF Suc.prems(4), where y = "Suc y" and k = k]
      by (simp del: cells.simps)
  next
    case (Inr i')
    then show ?thesis
      using row_backward(1) [OF Suc.prems(4), where y = "Suc y"] ih [of i']
      by (simp del: cells.simps split: sum.splits)
  qed
  also have "\<dots> = Inr (case fscan cls opn (map snd (?P @ rev ?A)) i of
        Inl k \<Rightarrow> fst ((?P @ rev ?A) ! k) | Inr i' \<Rightarrow> start)"
    by (simp only: scan_append_result)
  finally show ?case by (simp only: rev_append)
qed

lemma length_buffer_runes [simp]: "length (buffer_runes b) = length (lines (LineArray b))"
  by (simp add: buffer_runes_def)

lemma cell_ok_nat:
  assumes "cell_ok b s"
  obtains x y where "s = \<lparr>X = int x, Y = int y\<rparr>" "y < length (buffer_runes b)"
    "x < length (buffer_runes b ! y)"
proof -
  from assms have "0 \<le> Y s" "nat (Y s) < length (buffer_runes b)" "0 \<le> X s"
    "nat (X s) < length (buffer_runes b ! nat (Y s))"
    by (simp_all add: cell_ok_def line_ok_def nat_less_iff)
  then have "s = \<lparr>X = int (nat (X s)), Y = int (nat (Y s))\<rparr>" by simp
  with \<open>nat (Y s) < _\<close> \<open>nat (X s) < _\<close> show thesis by (blast intro: that)
qed

lemma cells_pos:
  assumes y: "y < length R" and x: "x < length (R ! y)"
  defines "p \<equiv> length (concat (take y R)) + x"
  shows "p < length (cells 0 R)"
    and "cells 0 R ! p = (\<lparr>X = int x, Y = int y\<rparr>, R ! y ! x)"
    and "drop p (cells 0 R) = drop x (cells y (drop y R))"
    and "take (Suc p) (cells 0 R) = cells 0 (take y R) @ take (Suc x) (cells y [R ! y])"
proof -
  let ?A = "cells 0 (take y R)"
  let ?B = "cells y [R ! y]"
  let ?C = "cells (Suc y) (drop (Suc y) R)"
  have all: "cells 0 R = ?A @ ?B @ ?C" using y by (rule cells_decompose)
  have lA: "length ?A = length (concat (take y R))" by simp
  have lB: "length ?B = length (R ! y)" by simp
  have B: "?B ! x = (\<lparr>X = int x, Y = int y\<rparr>, R ! y ! x)" using x by simp
  have BC: "cells y (drop y R) = ?B @ ?C"
    using y by (simp add: Cons_nth_drop_Suc [symmetric])
  show "p < length (cells 0 R)"
    unfolding all p_def using x by (simp del: cells.simps)
  show "cells 0 R ! p = (\<lparr>X = int x, Y = int y\<rparr>, R ! y ! x)"
    unfolding all p_def using x B by (simp del: cells.simps add: nth_append)
  show "drop p (cells 0 R) = drop x (cells y (drop y R))"
    unfolding all BC p_def by (simp del: cells.simps)
  show "take (Suc p) (cells 0 R) = ?A @ take (Suc x) ?B"
    unfolding all p_def using x by (simp del: cells.simps)
qed

lemma cells_index:
  assumes "q < length (cells 0 (buffer_runes b))"
  shows "cell_ok b (fst (cells 0 (buffer_runes b) ! q))"
    and "pos_index b (fst (cells 0 (buffer_runes b) ! q)) = q"
    and "rune_at b (fst (cells 0 (buffer_runes b) ! q)) = concat (buffer_runes b) ! q"
proof -
  let ?R = "buffer_runes b"
  from cells_nth_loc [OF assms] obtain j x where jx: "j < length ?R" "x < length (?R ! j)"
    "q = length (concat (take j ?R)) + x"
    "cells 0 ?R ! q = (\<lparr>X = int x, Y = int (0 + j)\<rparr>, ?R ! j ! x)"
    by blast
  show "cell_ok b (fst (cells 0 ?R ! q))"
    using jx by (simp add: cell_ok_def line_ok_def)
  show "pos_index b (fst (cells 0 ?R ! q)) = q"
    using jx by (simp add: pos_index_def)
  have "concat ?R ! q = snd (cells 0 ?R ! q)"
    using assms by (metis map_snd_cells nth_map)
  then show "rune_at b (fst (cells 0 ?R ! q)) = concat ?R ! q"
    using jx by (simp add: rune_at_def)
qed

lemma cell_ok_index:
  assumes "cell_ok b s"
  shows "pos_index b s < length (cells 0 (buffer_runes b))"
    and "cells 0 (buffer_runes b) ! pos_index b s = (s, rune_at b s)"
    and "concat (buffer_runes b) ! pos_index b s = rune_at b s"
proof -
  from assms obtain x y where s: "s = \<lparr>X = int x, Y = int y\<rparr>" "y < length (buffer_runes b)"
    "x < length (buffer_runes b ! y)" by (rule cell_ok_nat)
  from cells_pos(1,2) [OF s(2,3)]
  show 1: "pos_index b s < length (cells 0 (buffer_runes b))"
    and 2: "cells 0 (buffer_runes b) ! pos_index b s = (s, rune_at b s)"
    by (simp_all add: pos_index_def s(1) rune_at_def)
  have "concat (buffer_runes b) ! pos_index b s = snd (cells 0 (buffer_runes b) ! pos_index b s)"
    using 1 by (metis map_snd_cells nth_map)
  with 2 show "concat (buffer_runes b) ! pos_index b s = rune_at b s" by simp
qed

lemma FindMatchingBrace_cell_ok:
  assumes "FindMatchingBrace b bt s = Inr e"
  shows "cell_ok b s"
proof -
  from assms obtain curLine where c: "LineRunes b (Y s) = Inr curLine"
    "0 \<le> X s" "X s < int (length curLine)"
    by (auto simp: FindMatchingBrace_def split: sum.splits if_splits)
  then have "0 \<le> Y s" "Y s < int (length (lines (LineArray b)))"
    "curLine = buffer_runes b ! nat (Y s)"
    by (auto simp: LineRunes_def toRunes_def buffer_runes_def line_at_def nat_less_iff
        split: if_splits)
  with c show ?thesis by (simp add: cell_ok_def line_ok_def)
qed

lemma FindMatchingBrace_unfold:
  assumes "cell_ok b s"
  shows "FindMatchingBrace b (opn, cls) s =
     (if rune_at b s = opn then forward_lines b opn cls s (Y s) 0
      else if rune_at b s = cls then backward_lines b opn cls s (Y s) 0
      else Inr s)"
proof -
  from assms obtain x y where s: "s = \<lparr>X = int x, Y = int y\<rparr>" "y < length (buffer_runes b)"
    "x < length (buffer_runes b ! y)" by (rule cell_ok_nat)
  have "LineRunes b (Y s) = Inr (buffer_runes b ! y)"
    using s LineRunes_buffer_runes [of y b] by simp
  then show ?thesis
    using s by (simp add: FindMatchingBrace_def rune_at_def Let_def)
qed

lemma forward_from:
  assumes sync: "NumLines b = int (length (lines (LineArray b)))" and ok: "cell_ok b s"
  shows "forward_lines b opn cls s (Y s) 0 =
     Inr (case fscan opn cls (drop (pos_index b s) (concat (buffer_runes b))) 0 of
            Inl k \<Rightarrow> fst (cells 0 (buffer_runes b) ! (pos_index b s + k))
          | Inr i' \<Rightarrow> s)"
proof -
  let ?R = "buffer_runes b"
  from ok obtain x y where s: "s = \<lparr>X = int x, Y = int y\<rparr>" "y < length ?R"
    "x < length (?R ! y)" by (rule cell_ok_nat)
  have p: "pos_index b s = length (concat (take y ?R)) + x" by (simp add: pos_index_def s)
  have d: "drop x (cells y (drop y ?R)) = drop (pos_index b s) (cells 0 ?R)"
    using cells_pos(3) [OF s(2,3)] p by simp
  have le: "pos_index b s \<le> length (cells 0 ?R)"
    using cells_pos(1) [OF s(2,3)] p by simp
  have "forward_lines b opn cls s (int y) 0 =
       Inr (case fscan opn cls (map snd (drop x (cells y (drop y ?R)))) 0 of
              Inl k \<Rightarrow> fst (drop x (cells y (drop y ?R)) ! k)
            | Inr i' \<Rightarrow> s)"
    using s by (intro forward_lines_fscan [OF sync refl]) simp_all
  also have "\<dots> = Inr (case fscan opn cls (drop (pos_index b s) (concat ?R)) 0 of
            Inl k \<Rightarrow> fst (cells 0 ?R ! (pos_index b s + k))
          | Inr i' \<Rightarrow> s)"
  proof -
    have md: "map snd (drop (pos_index b s) (cells 0 ?R)) = drop (pos_index b s) (concat ?R)"
      by (metis drop_map map_snd_cells)
    have nd: "drop (pos_index b s) (cells 0 ?R) ! k = cells 0 ?R ! (pos_index b s + k)" for k
      using le by simp
    show ?thesis unfolding d md nd by (rule refl)
  qed
  finally show ?thesis by (simp add: s)
qed

lemma backward_from:
  assumes ne: "opn \<noteq> cls" and ok: "cell_ok b s"
  shows "backward_lines b opn cls s (Y s) 0 =
     Inr (case fscan cls opn (rev (take (Suc (pos_index b s)) (concat (buffer_runes b)))) 0 of
            Inl k \<Rightarrow> fst (cells 0 (buffer_runes b) ! (pos_index b s - k))
          | Inr i' \<Rightarrow> s)"
proof -
  let ?R = "buffer_runes b"
  let ?p = "pos_index b s"
  from ok obtain x y where s: "s = \<lparr>X = int x, Y = int y\<rparr>" "y < length ?R"
    "x < length (?R ! y)" by (rule cell_ok_nat)
  have p: "?p = length (concat (take y ?R)) + x" by (simp add: pos_index_def s)
  have t: "cells 0 (take y ?R) @ take (Suc x) (cells y [?R ! y]) = take (Suc ?p) (cells 0 ?R)"
    using cells_pos(4) [OF s(2,3)] p by simp
  have lt: "?p < length (cells 0 ?R)"
    using cells_pos(1) [OF s(2,3)] p by simp
  have ms: "map snd (rev (take (Suc ?p) (cells 0 ?R))) = rev (take (Suc ?p) (concat ?R))"
    by (metis map_snd_cells rev_map take_map)
  have "backward_lines b opn cls s (int y) 0 =
       Inr (case fscan cls opn (map snd (rev (cells 0 (take y ?R)
                    @ take (Suc x) (cells y [?R ! y])))) 0 of
              Inl k \<Rightarrow> fst (rev (cells 0 (take y ?R) @ take (Suc x) (cells y [?R ! y])) ! k)
            | Inr i' \<Rightarrow> s)"
    using s by (intro backward_lines_fscan [OF ne]) simp_all
  also have "\<dots> = Inr (case fscan cls opn (rev (take (Suc ?p) (concat ?R))) 0 of
            Inl k \<Rightarrow> fst (cells 0 ?R ! (?p - k))
          | Inr i' \<Rightarrow> s)"
  proof (cases "fscan cls opn (rev (take (Suc ?p) (concat ?R))) 0")
    case (Inl k)
    then have "k < length (rev (take (Suc ?p) (concat ?R)))" using fscan_sound by blast
    then have k: "k < Suc ?p" by simp
    moreover have "length (take (Suc ?p) (cells 0 ?R)) = Suc ?p"
      using lt by simp
    ultimately have "rev (take (Suc ?p) (cells 0 ?R)) ! k = cells 0 ?R ! (?p - k)"
      by (simp only: rev_nth) simp
    with Inl show ?thesis unfolding t ms by simp
  next
    case (Inr i')
    then show ?thesis unfolding t ms by simp
  qed
  finally show ?thesis by (simp add: s)
qed

lemma fscan_prefix:
  "fscan opn cls (take n xs) i = Inl k \<Longrightarrow> fscan opn cls xs i = Inl k"
  using fscan_append [of opn cls "take n xs" "drop n xs" i] by simp

lemma match_forward_then_backward:
  assumes sync: "NumLines b = int (length (lines (LineArray b)))"
    and ok: "cell_ok b s" and opn: "rune_at b s = opn"
    and f: "fscan opn cls (drop (pos_index b s) (concat (buffer_runes b))) 0 = Inl k"
  shows "FindMatchingBrace b (opn, cls) s = Inr (fst (cells 0 (buffer_runes b) ! (pos_index b s + k)))"
    and "FindMatchingBrace b (opn, cls) (fst (cells 0 (buffer_runes b) ! (pos_index b s + k))) = Inr s"
    and "cell_ok b (fst (cells 0 (buffer_runes b) ! (pos_index b s + k)))"
    and "rune_at b (fst (cells 0 (buffer_runes b) ! (pos_index b s + k))) = cls"
    and "opn \<noteq> cls"
proof -
  let ?cs = "concat (buffer_runes b)"
  let ?all = "cells 0 (buffer_runes b)"
  let ?p = "pos_index b s"
  let ?e = "fst (?all ! (?p + k))"
  have p: "?p < length ?cs" "?cs ! ?p = opn" "?all ! ?p = (s, rune_at b s)"
    using cell_ok_index [OF ok] opn by simp_all
  from fscan_sound [OF f] have k: "k < length (drop ?p ?cs)" by simp
  then have q: "?p + k < length ?all" by simp
  from fscan_found_char [OF f] have c: "?cs ! (?p + k) = cls" "cls \<noteq> opn"
    using p(1) by auto
  show ne: "opn \<noteq> cls" using c by simp
  show "FindMatchingBrace b (opn, cls) s = Inr ?e"
    by (simp add: FindMatchingBrace_unfold [OF ok] opn forward_from [OF sync ok] f)
  from cells_index [OF q] c
  have e: "cell_ok b ?e" and re: "rune_at b ?e = cls" and pe: "pos_index b ?e = ?p + k"
    by simp_all
  show "cell_ok b ?e" by (rule e)
  show "rune_at b ?e = cls" by (rule re)
  have hd: "drop ?p ?cs \<noteq> []" "hd (drop ?p ?cs) = opn"
    using p by (simp_all add: hd_drop_conv_nth)
  have "take (Suc (?p + k)) ?cs = take ?p ?cs @ take (Suc k) (drop ?p ?cs)"
    using take_add [of ?p "Suc k" ?cs] by simp
  then have "rev (take (Suc (?p + k)) ?cs) = rev (take (Suc k) (drop ?p ?cs)) @ rev (take ?p ?cs)"
    by simp
  moreover have "fscan cls opn (rev (take (Suc k) (drop ?p ?cs))) 0 = Inl k"
    using ne f hd by (rule fscan_reverse)
  ultimately have "fscan cls opn (rev (take (Suc (?p + k)) ?cs)) 0 = Inl k"
    by (simp add: fscan_append)
  then show "FindMatchingBrace b (opn, cls) ?e = Inr s"
    using c p by (simp add: FindMatchingBrace_unfold [OF e] re backward_from [OF ne e] pe)
qed

lemma match_backward_then_forward:
  assumes sync: "NumLines b = int (length (lines (LineArray b)))"
    and ok: "cell_ok b s" and cls: "rune_at b s = cls" and ne: "opn \<noteq> cls"
    and f: "fscan cls opn (rev (take (Suc (pos_index b s)) (concat (buffer_runes b)))) 0 = Inl k"
  shows "FindMatchingBrace b (opn, cls) s = Inr (fst (cells 0 (buffer_runes b) ! (pos_index b s - k)))"
    and "FindMatchingBrace b (opn, cls) (fst (cells 0 (buffer_runes b) ! (pos_index b s - k))) = Inr s"
    and "cell_ok b (fst (cells 0 (buffer_runes b) ! (pos_index b s - k)))"
    and "rune_at b (fst (cells 0 (buffer_runes b) ! (pos_index b s - k))) = opn"
proof -
  let ?cs = "concat (buffer_runes b)"
  let ?all = "cells 0 (buffer_runes b)"
  let ?p = "pos_index b s"
  let ?ys = "rev (take (Suc ?p) ?cs)"
  let ?e = "fst (?all ! (?p - k))"
  have p: "?p < length ?cs" "?cs ! ?p = cls" "?all ! ?p = (s, rune_at b s)"
    using cell_ok_index [OF ok] cls by simp_all
  have len: "length ?ys = Suc ?p" using p by simp
  from fscan_sound [OF f] have k: "k < Suc ?p" using len by simp
  then have q: "?p - k < length ?all" using p by simp
  have nth: "?ys ! k = ?cs ! (?p - k)"
    using k p by (simp add: rev_nth)
  from fscan_found_char [OF f] have c: "?cs ! (?p - k) = opn"
    using nth by simp
  show "FindMatchingBrace b (opn, cls) s = Inr ?e"
    using ne by (simp add: FindMatchingBrace_unfold [OF ok] cls backward_from [OF ne ok] f)
  from cells_index [OF q] c
  have e: "cell_ok b ?e" and re: "rune_at b ?e = opn" and pe: "pos_index b ?e = ?p - k"
    by simp_all
  show "cell_ok b ?e" by (rule e)
  show "rune_at b ?e = opn" by (rule re)
  have hd: "?ys \<noteq> []" "hd ?ys = cls"
    using p by (simp_all add: hd_rev last_conv_nth take_Suc_conv_app_nth)
  have "fscan opn cls (rev (take (Suc k) ?ys)) 0 = Inl k"
    using ne [symmetric] f hd by (rule fscan_reverse)
  moreover have "rev (take (Suc k) ?ys) = take (Suc k) (drop (?p - k) ?cs)"
    using k p by (simp add: take_rev drop_take Suc_diff_le)
  ultimately have "fscan opn cls (take (Suc k) (drop (?p - k) ?cs)) 0 = Inl k"
    by simp
  then have "fscan opn cls (drop (?p - k) ?cs) 0 = Inl k"
    by (rule fscan_prefix)
  then show "FindMatchingBrace b (opn, cls) ?e = Inr s"
    using k p by (simp add: FindMatchingBrace_unfold [OF e] re forward_from [OF sync e] pe)
qed

lemma runes_after_drop:
  assumes "cell_ok b s"
  shows "runes_after b s = drop (pos_index b s) (concat (buffer_runes b))"
proof -
  let ?R = "buffer_runes b"
  from assms obtain x y where s: "s = \<lparr>X = int x, Y = int y\<rparr>" "y < length ?R"
    "x < length (?R ! y)" by (rule cell_ok_nat)
  have "?R = take y ?R @ [?R ! y] @ drop (Suc y) ?R"
    using s(2) by (simp add: id_take_nth_drop [symmetric])
  then have "concat ?R = concat (take y ?R) @ ?R ! y @ concat (drop (Suc y) ?R)"
    by (metis concat_append concat.simps(2) concat.simps(1) append_Nil2 append_assoc)
  then have "drop (pos_index b s) (concat ?R) = drop x (?R ! y) @ concat (drop (Suc y) ?R)"
    using s(3) by (simp add: pos_index_def s(1))
  then show ?thesis by (simp add: runes_after_def s(1))
qed

lemma runes_before_take:
  assumes "cell_ok b s"
  shows "runes_before b s = rev (take (Suc (pos_index b s)) (concat (buffer_runes b)))"
proof -
  let ?R = "buffer_runes b"
  from assms obtain x y where s: "s = \<lparr>X = int x, Y = int y\<rparr>" "y < length ?R"
    "x < length (?R ! y)" by (rule cell_ok_nat)
  have "?R = take y ?R @ [?R ! y] @ drop (Suc y) ?R"
    using s(2) by (simp add: id_take_nth_drop [symmetric])
  then have "concat ?R = concat (take y ?R) @ ?R ! y @ concat (drop (Suc y) ?R)"
    by (metis concat_append concat.simps(2) concat.simps(1) append_Nil2 append_assoc)
  then have "take (Suc (pos_index b s)) (concat ?R) = concat (take y ?R) @ take (Suc x) (?R ! y)"
    using s(3) by (simp add: pos_index_def s(1))
  then show ?thesis by (simp add: runes_before_def s(1))
qed

lemma FindMatchingBrace_result:
  assumes sync: "NumLines b = int (length (lines (LineArray b)))" and ok: "cell_ok b s"
  shows "FindMatchingBrace b (opn, cls) s =
     (if rune_at b s = opn then
        Inr (case fscan opn cls (runes_after b s) 0 of
               Inl k \<Rightarrow> fst (cells 0 (buffer_runes b) ! (pos_index b s + k))
             | Inr i' \<Rightarrow> s)
      else if rune_at b s = cls then
        Inr (case fscan cls opn (runes_before b s) 0 of
               Inl k \<Rightarrow> fst (cells 0 (buffer_runes b) ! (pos_index b s - k))
             | Inr i' \<Rightarrow> s)
      else Inr s)"
proof (cases "rune_at b s = opn")
  case True
  then show ?thesis
    by (simp add: FindMatchingBrace_unfold [OF ok] forward_from [OF sync ok] runes_after_drop [OF ok])
next
  case False
  show ?thesis
  proof (cases "rune_at b s = cls")
    case True
    with False have ne: "opn \<noteq> cls" by auto
    show ?thesis
      using False True
      by (simp add: FindMatchingBrace_unfold [OF ok] backward_from [OF ne ok]
          runes_before_take [OF ok])
  next
    case F2: False
    with False show ?thesis by (simp add: FindMatchingBrace_unfold [OF ok])
  qed
qed

lemma matching_brace_symmetry:
  assumes sync: "NumLines b = int (length (lines (LineArray b)))"
    and r: "FindMatchingBrace b (opn, cls) s = Inr e" and es: "e \<noteq> s"
  shows "FindMatchingBrace b (opn, cls) e = Inr s \<and> cell_ok b e \<and>
     (rune_at b s = opn \<longrightarrow> rune_at b e = cls) \<and>
     (rune_at b s \<noteq> opn \<longrightarrow> rune_at b s = cls \<and> rune_at b e = opn)"
proof -
  have ok: "cell_ok b s" using r by (rule FindMatchingBrace_cell_ok)
  note res = FindMatchingBrace_result [OF sync ok, of opn cls]
  show ?thesis
  proof (cases "rune_at b s = opn")
    case True
    with res r es obtain k where k: "fscan opn cls (runes_after b s) 0 = Inl k"
      and e: "e = fst (cells 0 (buffer_runes b) ! (pos_index b s + k))"
      by (cases "fscan opn cls (runes_after b s) 0") auto
    from k have f: "fscan opn cls (drop (pos_index b s) (concat (buffer_runes b))) 0 = Inl k"
      by (simp add: runes_after_drop [OF ok])
    from match_forward_then_backward(2,3,4) [OF sync ok True f] True e
    show ?thesis by simp
  next
    case False
    with res r es have cls: "rune_at b s = cls" by (auto split: if_splits)
    with False have ne: "opn \<noteq> cls" by auto
    from False cls res r es obtain k where k: "fscan cls opn (runes_before b s) 0 = Inl k"
      and e: "e = fst (cells 0 (buffer_runes b) ! (pos_index b s - k))"
      by (cases "fscan cls opn (runes_before b s) 0") auto
    from k have f: "fscan cls opn (rev (take (Suc (pos_index b s)) (concat (buffer_runes b)))) 0 = Inl k"
      by (simp add: runes_before_take [OF ok])
    from match_backward_then_forward(2,3,4) [OF sync ok cls ne f] False cls e
    show ?thesis by simp
  qed
qed

lemma FindMatchingBrace_unbalanced:
  assumes sync: "NumLines b = int (length (lines (LineArray b)))" and ok: "cell_ok b s"
  shows "rune_at b s = opn \<Longrightarrow> \<forall>k. \<not> balances opn cls (runes_after b s) k \<Longrightarrow>
      FindMatchingBrace b (opn, cls) s = Inr s"
    and "rune_at b s = cls \<Longrightarrow> cls \<noteq> opn \<Longrightarrow> \<forall>k. \<not> balances cls opn (runes_before b s) k \<Longrightarrow>
      FindMatchingBrace b (opn, cls) s = Inr s"
proof -
  note res = FindMatchingBrace_result [OF sync ok, of opn cls]
  {
    assume o: "rune_at b s = opn" and nb: "\<forall>k. \<not> balances opn cls (runes_after b s) k"
    have "fscan opn cls (runes_after b s) 0 \<noteq> Inl k" for k
      using fscan_sound [of opn cls "runes_after b s" 0 k] nb by (auto simp: balances_def)
    then show "FindMatchingBrace b (opn, cls) s = Inr s"
      using res o by (cases "fscan opn cls (runes_after b s) 0") auto
  }
  {
    assume c: "rune_at b s = cls" "cls \<noteq> opn"
      and nb: "\<forall>k. \<not> balances cls opn (runes_before b s) k"
    have "fscan cls opn (runes_before b s) 0 \<noteq> Inl k" for k
      using fscan_sound [of cls opn "runes_before b s" 0 k] nb by (auto simp: balances_def)
    then show "FindMatchingBrace b (opn, cls) s = Inr s"
      using res c by (cases "fscan cls opn (runes_before b s) 0") auto
  }
qed

section \<open>The claims\<close>

text \<open>
  C1. For every line and every rune offset \<open>k\<close> from 0 to the number of runes of the line,
  \<^verbatim>\<open>runeToByteIndex(k, txt)\<close> is a byte offset within the line, and the bytes before that
  offset hold exactly \<open>k\<close> runes (as \<^verbatim>\<open>utf8.RuneCount\<close> counts them, invalid bytes
  included as one rune each); offset 0 is returned for \<open>k = 0\<close>.
\<close>

theorem runeToByteIndex_prefix:
  "runeToByteIndex 0 txt = 0 \<and>
   (0 \<le> k \<and> k \<le> int (RuneCount txt) \<longrightarrow>
      0 \<le> runeToByteIndex k txt \<and> runeToByteIndex k txt \<le> int (length txt) \<and>
      int (RuneCount (take (nat (runeToByteIndex k txt)) txt)) = k)"
proof (rule conjI)
  show "runeToByteIndex 0 txt = 0" by (simp add: runeToByteIndex_def)
next
  show "0 \<le> k \<and> k \<le> int (RuneCount txt) \<longrightarrow>
      0 \<le> runeToByteIndex k txt \<and> runeToByteIndex k txt \<le> int (length txt) \<and>
      int (RuneCount (take (nat (runeToByteIndex k txt)) txt)) = k"
  proof (cases "k = 0")
    case True
    then show ?thesis by (simp add: runeToByteIndex_def)
  next
    case False
    show ?thesis
    proof (rule impI)
      assume k: "0 \<le> k \<and> k \<le> int (RuneCount txt)"
      with False have "0 < k" "k - 0 \<le> int (RuneCount txt)" by simp_all
      from runeToByteIndex_loop_prefix [OF this, of 0]
      obtain off where "runeToByteIndex_loop k txt 0 0 = int off" "off \<le> length txt"
        "RuneCount (take off txt) = nat k" by auto
      with False k show "0 \<le> runeToByteIndex k txt \<and> runeToByteIndex k txt \<le> int (length txt) \<and>
        int (RuneCount (take (nat (runeToByteIndex k txt)) txt)) = k"
        by (simp add: runeToByteIndex_def)
    qed
  qed
qed

theorem runeToByteIndex_prefix_witness:
  "(0::int) \<le> 2 \<and> 2 \<le> int (RuneCount [0x68, 0xC3, 0xA9, 0x6C, 0x6C, 0x6F]) \<and>
   runeToByteIndex 2 [0x68, 0xC3, 0xA9, 0x6C, 0x6C, 0x6F] = 3 \<and>
   int (RuneCount (take (nat (runeToByteIndex 2 [0x68, 0xC3, 0xA9, 0x6C, 0x6C, 0x6F]))
      [0x68, 0xC3, 0xA9, 0x6C, 0x6C, 0x6F])) = 2"
proof -
  have h: "(0::int) \<le> 2 \<and> 2 \<le> int (RuneCount [0x68, 0xC3, 0xA9, 0x6C, 0x6C, 0x6F])"
    by code_simp
  have v: "runeToByteIndex 2 [0x68, 0xC3, 0xA9, 0x6C, 0x6C, 0x6F] = 3"
    by code_simp
  from runeToByteIndex_prefix [of "[0x68, 0xC3, 0xA9, 0x6C, 0x6C, 0x6F]" 2] h v
  show ?thesis by blast
qed

text \<open>
  C2. On a store whose lines hold no line feed, for every line index \<^verbatim>\<open>pos.Y\<close> of the store
  and every byte offset \<^verbatim>\<open>pos.X\<close> from 0 to the length of that line, \<^verbatim>\<open>Split(pos)\<close> returns
  with one line more, and \<^verbatim>\<open>JoinLines(pos.Y, pos.Y+1)\<close> on the result returns a store with
  the bytes of every line and the number of lines as before the split. The store differs
  from the original one only in the highlighting slots of line \<^verbatim>\<open>pos.Y\<close>, which \<^verbatim>\<open>Split\<close>
  resets.
\<close>

theorem Split_JoinLines_inverse:
  assumes "no_LF la" and "line_ok la (Y pos)"
    and "0 \<le> X pos" and "X pos \<le> int (length (data (line_at la (Y pos))))"
  shows "\<exists>la1 la2. Split (Suc d) la pos = Inr la1 \<and>
     length (lines la1) = length (lines la) + 1 \<and>
     JoinLines d' la1 (Y pos) (Y pos + 1) = Inr la2 \<and>
     map data (lines la2) = map data (lines la) \<and>
     length (lines la2) = length (lines la) \<and>
     lines la2 = (lines la)[nat (Y pos) :=
        (line_at la (Y pos))\<lparr>state := None, match := None, rehighlight := True\<rparr>]"
proof -
  have "LF \<notin> set (data (line_at la (Y pos)))"
    using assms(1,2) by (rule no_LF_line)
  from Split_JoinLines_lines [OF this assms(2-4), of d d']
  obtain la1 where la1: "Split (Suc d) la pos = Inr la1"
    "length (lines la1) = length (lines la) + 1"
    "JoinLines d' la1 (Y pos) (Y pos + 1) =
       Inr (set_line la (Y pos) ((line_at la (Y pos))\<lparr>state := None, match := None, rehighlight := True\<rparr>))"
    by blast
  have "map data ((lines la)[nat (Y pos) :=
      (line_at la (Y pos))\<lparr>state := None, match := None, rehighlight := True\<rparr>]) = map data (lines la)"
    using assms(2)
    by (simp add: map_update line_at_def line_ok_def list_update_same_conv nat_less_iff)
  with la1 show ?thesis by simp
qed

theorem Split_JoinLines_inverse_witness:
  "no_LF \<lparr>lines = [new_Line [0x61, 0x62]]\<rparr> \<and>
   line_ok \<lparr>lines = [new_Line [0x61, 0x62]]\<rparr> 0 \<and>
   (\<exists>la1 la2. Split (Suc 0) \<lparr>lines = [new_Line [0x61, 0x62]]\<rparr> \<lparr>X = 1, Y = 0\<rparr> = Inr la1 \<and>
      length (lines la1) = 2 \<and>
      JoinLines 0 la1 0 1 = Inr la2 \<and>
      map data (lines la2) = [[0x61, 0x62]])"
proof -
  let ?la = "\<lparr>lines = [new_Line [0x61, 0x62]]\<rparr>"
  let ?pos = "\<lparr>X = 1, Y = 0\<rparr>"
  have h: "no_LF ?la" "line_ok ?la (Y ?pos)" "0 \<le> X ?pos"
    "X ?pos \<le> int (length (data (line_at ?la (Y ?pos))))"
    by (simp_all add: no_LF_def line_ok_def line_at_def new_Line_def LF_def)
  from Split_JoinLines_inverse [OF h, of 0 0]
  obtain la1 la2 where "Split (Suc 0) ?la ?pos = Inr la1" "length (lines la1) = 2"
    "JoinLines 0 la1 0 1 = Inr la2" "map data (lines la2) = [[0x61, 0x62]]"
    by (auto simp: new_Line_def)
  with h(1,2) show ?thesis by auto
qed

text \<open>
  C3. On a store whose lines hold no line feed, for valid locations \<open>start \<le> end\<close> (by line,
  then by column), \<^verbatim>\<open>remove(start, end)\<close> returns. Let \<open>sx\<close> and \<open>ex\<close> be the byte offsets that
  \<^verbatim>\<open>runeToByteIndex\<close> gives for \<^verbatim>\<open>start.X\<close> in the start line and for \<^verbatim>\<open>end.X\<close> in the end line.
  They are rune boundaries at the columns asked for: the bytes before \<open>sx\<close> hold \<^verbatim>\<open>start.X\<close>
  runes and the bytes from \<open>sx\<close> hold the remaining runes of the start line, and likewise for
  \<open>ex\<close> and \<^verbatim>\<open>end.X\<close> in the end line. The text returned is what \<^verbatim>\<open>Substr(start, end)\<close> gives on
  the store before the call, and it is the text between the two cuts: on one line the bytes
  from \<open>sx\<close> to \<open>ex\<close>; on several lines the start line from \<open>sx\<close>, a line feed, every line
  strictly between the two followed by a line feed, and the end line up to \<open>ex\<close>. Afterwards
  the lines before \<^verbatim>\<open>start.Y\<close> and after \<^verbatim>\<open>end.Y\<close> are as before, and in place of the lines from
  \<^verbatim>\<open>start.Y\<close> to \<^verbatim>\<open>end.Y\<close> there is one line: the start line with its bytes replaced by its
  old bytes before \<open>sx\<close> followed by the old bytes of the end line from \<open>ex\<close>. The number of
  lines decreases by \<^verbatim>\<open>end.Y - start.Y\<close>. In terms of the whole text (\<^verbatim>\<open>String()\<close>): the text
  before the call is the text before \<^verbatim>\<open>start\<close>, then the returned text, then the text after
  \<^verbatim>\<open>end\<close>; the text after the call is the same without the returned text.
\<close>

theorem remove_effect:
  assumes "no_LF la" and "valid_loc la start" and "valid_loc la end"
    and "Y start < Y end \<or> (Y start = Y end \<and> X start \<le> X end)"
  shows "\<exists>sx ex sub la'.
     int sx = runeToByteIndex (X start) (data (line_at la (Y start))) \<and>
     int ex = runeToByteIndex (X end) (data (line_at la (Y end))) \<and>
     sx \<le> length (data (line_at la (Y start))) \<and>
     ex \<le> length (data (line_at la (Y end))) \<and>
     int (RuneCount (take sx (data (line_at la (Y start))))) = X start \<and>
     int (RuneCount (drop sx (data (line_at la (Y start)))))
       = int (RuneCount (data (line_at la (Y start)))) - X start \<and>
     int (RuneCount (take ex (data (line_at la (Y end))))) = X end \<and>
     int (RuneCount (drop ex (data (line_at la (Y end)))))
       = int (RuneCount (data (line_at la (Y end)))) - X end \<and>
     remove d la start end = Inr (sub, la') \<and>
     Substr la start end = Inr sub \<and>
     sub = (if Y start = Y end then take (ex - sx) (drop sx (data (line_at la (Y start))))
            else drop sx (data (line_at la (Y start))) @ [LF]
              @ concat (map (\<lambda>l. data l @ [LF])
                  (take (nat (Y end - Y start) - 1) (drop (Suc (nat (Y start))) (lines la))))
              @ take ex (data (line_at la (Y end)))) \<and>
     lines la' = take (nat (Y start)) (lines la)
        @ [(line_at la (Y start))\<lparr>data :=
             take sx (data (line_at la (Y start))) @ drop ex (data (line_at la (Y end)))\<rparr>]
        @ drop (Suc (nat (Y end))) (lines la) \<and>
     int (length (lines la')) = int (length (lines la)) - (Y end - Y start) \<and>
     String la =
       (concat (map (\<lambda>l. data l @ [LF]) (take (nat (Y start)) (lines la)))
          @ take sx (data (line_at la (Y start))))
       @ sub
       @ (drop ex (data (line_at la (Y end)))
          @ concat (map (\<lambda>l. [LF] @ data l) (drop (Suc (nat (Y end))) (lines la)))) \<and>
     String la' =
       (concat (map (\<lambda>l. data l @ [LF]) (take (nat (Y start)) (lines la)))
          @ take sx (data (line_at la (Y start))))
       @ (drop ex (data (line_at la (Y end)))
          @ concat (map (\<lambda>l. [LF] @ data l) (drop (Suc (nat (Y end))) (lines la))))"
proof -
  let ?ds = "data (line_at la (Y start))"
  let ?de = "data (line_at la (Y end))"
  have ok: "line_ok la (Y start)" "line_ok la (Y end)"
    and xs: "0 \<le> X start" "X start \<le> int (RuneCount ?ds)"
    and xe: "0 \<le> X end" "X end \<le> int (RuneCount ?de)"
    using assms(2,3) by (simp_all add: valid_loc_def)
  define sx where "sx = nat (runeToByteIndex (X start) ?ds)"
  define ex where "ex = nat (runeToByteIndex (X end) ?de)"
  have sx: "runeToByteIndex (X start) ?ds = int sx" "sx \<le> length ?ds"
    using runeToByteIndex_bounds [of "X start" ?ds] by (simp_all add: sx_def nat_le_iff)
  have ex: "runeToByteIndex (X end) ?de = int ex" "ex \<le> length ?de"
    using runeToByteIndex_bounds [of "X end" ?de] by (simp_all add: ex_def nat_le_iff)
  have le: "Y start < Y end \<or> (Y start = Y end \<and>
       runeToByteIndex (X start) ?ds \<le> runeToByteIndex (X end) ?de)"
    using assms(4) xs(1) by (auto intro: runeToByteIndex_mono)
  have same: "Y start = Y end \<longrightarrow> sx \<le> ex"
    using le sx(1) ex(1) by auto
  define sub where "sub = (if Y start = Y end then take (ex - sx) (drop sx ?ds)
            else drop sx ?ds @ [LF]
              @ concat (map (\<lambda>l. data l @ [LF])
                  (take (nat (Y end - Y start) - 1) (drop (Suc (nat (Y start))) (lines la))))
              @ take ex ?de)"
  define la' where "la' = la\<lparr>lines := take (nat (Y start)) (lines la)
          @ [(line_at la (Y start))\<lparr>data := take sx ?ds @ drop ex ?de\<rparr>]
          @ drop (Suc (nat (Y end))) (lines la)\<rparr>"
  have s: "Substr la start end = Inr sub"
    using Substr_text [OF ok le] by (simp add: sub_def sx_def ex_def)
  have r: "remove d la start end = Inr (sub, la')"
    using remove_lines [OF assms(1) ok le, of d] s by (auto simp: la'_def sx_def ex_def)
  have c1: "int (RuneCount (take sx ?ds)) = X start"
    unfolding sx_def using xs by (rule runeToByteIndex_RuneCount)
  have c2: "int (RuneCount (drop sx ?ds)) = int (RuneCount ?ds) - X start"
    unfolding sx_def using xs by (rule runeToByteIndex_RuneCount_drop)
  have c3: "int (RuneCount (take ex ?de)) = X end"
    unfolding ex_def using xe by (rule runeToByteIndex_RuneCount)
  have c4: "int (RuneCount (drop ex ?de)) = int (RuneCount ?de) - X end"
    unfolding ex_def using xe by (rule runeToByteIndex_RuneCount_drop)
  have yy: "Y start \<le> Y end" using assms(4) by auto
  have len: "int (length (lines la')) = int (length (lines la)) - (Y end - Y start)"
    using yy ok by (auto simp: la'_def line_ok_def)
  have mn: "nat (Y start) \<le> nat (Y end)" "nat (Y end) < length (lines la)"
    "nat (Y start) = nat (Y end) \<longleftrightarrow> Y start = Y end"
    "nat (Y end) - nat (Y start) - 1 = nat (Y end - Y start) - 1"
    using yy ok by (auto simp: line_ok_def)
  have t1: "String la =
       (concat (map (\<lambda>l. data l @ [LF]) (take (nat (Y start)) (lines la))) @ take sx ?ds)
       @ sub
       @ (drop ex ?de @ concat (map (\<lambda>l. [LF] @ data l) (drop (Suc (nat (Y end))) (lines la))))"
    using join_lines_cut [of "nat (Y start)" "nat (Y end)" "lines la" sx ex "[LF]"]
      mn sx(2) ex(2) same
    by (simp add: String_join sub_def line_at_def)
  have t2: "String la' =
       (concat (map (\<lambda>l. data l @ [LF]) (take (nat (Y start)) (lines la))) @ take sx ?ds)
       @ (drop ex ?de @ concat (map (\<lambda>l. [LF] @ data l) (drop (Suc (nat (Y end))) (lines la))))"
    unfolding String_join la'_def using join_lines_spliced [of "[LF]"] by simp
  have l': "lines la' = take (nat (Y start)) (lines la)
        @ [(line_at la (Y start))\<lparr>data := take sx ?ds @ drop ex ?de\<rparr>]
        @ drop (Suc (nat (Y end))) (lines la)"
    by (simp add: la'_def)
  show ?thesis
    using sx ex c1 c2 c3 c4 r s sub_def l' len t1 t2
    by (intro exI [of _ sx] exI [of _ ex] exI [of _ sub] exI [of _ la']) (simp only: simp_thms)
qed

theorem remove_effect_witness:
  "no_LF \<lparr>lines = [new_Line [0x68, 0xC3, 0xA9, 0x61], new_Line [0x64], new_Line [0xC3, 0xA9, 0x66]]\<rparr> \<and>
   valid_loc \<lparr>lines = [new_Line [0x68, 0xC3, 0xA9, 0x61], new_Line [0x64], new_Line [0xC3, 0xA9, 0x66]]\<rparr>
     \<lparr>X = 2, Y = 0\<rparr> \<and>
   valid_loc \<lparr>lines = [new_Line [0x68, 0xC3, 0xA9, 0x61], new_Line [0x64], new_Line [0xC3, 0xA9, 0x66]]\<rparr>
     \<lparr>X = 1, Y = 2\<rparr> \<and>
   (\<exists>la'. remove 0
        \<lparr>lines = [new_Line [0x68, 0xC3, 0xA9, 0x61], new_Line [0x64], new_Line [0xC3, 0xA9, 0x66]]\<rparr>
        \<lparr>X = 2, Y = 0\<rparr> \<lparr>X = 1, Y = 2\<rparr>
      = Inr ([0x61, 0x0A, 0x64, 0x0A, 0xC3, 0xA9], la') \<and>
     lines la' = [new_Line [0x68, 0xC3, 0xA9, 0x66]] \<and>
     String la' = [0x68, 0xC3, 0xA9, 0x66])"
proof -
  let ?la = "\<lparr>lines = [new_Line [0x68, 0xC3, 0xA9, 0x61], new_Line [0x64], new_Line [0xC3, 0xA9, 0x66]]\<rparr>"
  let ?s = "\<lparr>X = 2, Y = 0\<rparr>"
  let ?e = "\<lparr>X = 1, Y = 2\<rparr>"
  have h1: "no_LF ?la"
    by (simp add: no_LF_def new_Line_def LF_def)
  have h2: "valid_loc ?la ?s" and h3: "valid_loc ?la ?e"
    by code_simp+
  have h4: "Y ?s < Y ?e \<or> (Y ?s = Y ?e \<and> X ?s \<le> X ?e)" by simp
  have r1: "runeToByteIndex 2 [0x68, 0xC3, 0xA9, 0x61] = 3"
    and r2: "runeToByteIndex 1 [0xC3, 0xA9, 0x66] = 2"
    by code_simp+
  from remove_effect [OF h1 h2 h3 h4, of 0]
  obtain sx ex sub la' where f:
    "int sx = runeToByteIndex (X ?s) (data (line_at ?la (Y ?s)))"
    "int ex = runeToByteIndex (X ?e) (data (line_at ?la (Y ?e)))"
    "remove 0 ?la ?s ?e = Inr (sub, la')"
    "sub = (if Y ?s = Y ?e then take (ex - sx) (drop sx (data (line_at ?la (Y ?s))))
            else drop sx (data (line_at ?la (Y ?s))) @ [LF]
              @ concat (map (\<lambda>l. data l @ [LF])
                  (take (nat (Y ?e - Y ?s) - 1) (drop (Suc (nat (Y ?s))) (lines ?la))))
              @ take ex (data (line_at ?la (Y ?e))))"
    "lines la' = take (nat (Y ?s)) (lines ?la)
        @ [(line_at ?la (Y ?s))\<lparr>data :=
             take sx (data (line_at ?la (Y ?s))) @ drop ex (data (line_at ?la (Y ?e)))\<rparr>]
        @ drop (Suc (nat (Y ?e))) (lines ?la)"
    "String la' =
       (concat (map (\<lambda>l. data l @ [LF]) (take (nat (Y ?s)) (lines ?la)))
          @ take sx (data (line_at ?la (Y ?s))))
       @ (drop ex (data (line_at ?la (Y ?e)))
          @ concat (map (\<lambda>l. [LF] @ data l) (drop (Suc (nat (Y ?e))) (lines ?la))))"
    by blast
  have sx: "sx = 3" and ex: "ex = 2"
    using f(1,2) by (simp_all add: line_at_def new_Line_def r1 r2)
  have "sub = [0x61, 0x0A, 0x64, 0x0A, 0xC3, 0xA9]"
    using f(4) by (simp add: sx ex line_at_def new_Line_def LF_def)
  moreover have "lines la' = [new_Line [0x68, 0xC3, 0xA9, 0x66]]"
    using f(5) by (simp add: sx ex line_at_def new_Line_def)
  moreover have "String la' = [0x68, 0xC3, 0xA9, 0x66]"
    using f(6) by (simp add: sx ex line_at_def new_Line_def)
  ultimately show ?thesis using h1 h2 h3 f(3) by simp
qed

text \<open>
  C9. For every line index \<open>n\<close> at or past the number of lines of the buffer, \<^verbatim>\<open>Line(n)\<close>
  returns the empty string and \<^verbatim>\<open>LineBytes(n)\<close> an empty slice; neither panics.
\<close>

theorem Line_past_end:
  "n \<ge> int (length (lines (LineArray b))) \<Longrightarrow> Line b n = Inr [] \<and> LineBytes b n = Inr []"
  by (simp add: Line_def LineBytes_def)

theorem Line_past_end_witness:
  "(1::int) \<ge> int (length (lines (LineArray
      \<lparr>LineArray = \<lparr>lines = [new_Line [0x61]]\<rparr>, IsModified = False, NumLines = 1,
        fileformat = ''unix'', Password = ''''\<rparr>))) \<and>
   Line \<lparr>LineArray = \<lparr>lines = [new_Line [0x61]]\<rparr>, IsModified = False, NumLines = 1,
        fileformat = ''unix'', Password = ''''\<rparr> 1 = Inr [] \<and>
   LineBytes \<lparr>LineArray = \<lparr>lines = [new_Line [0x61]]\<rparr>, IsModified = False, NumLines = 1,
        fileformat = ''unix'', Password = ''''\<rparr> 1 = Inr []"
  using Line_past_end [of "\<lparr>LineArray = \<lparr>lines = [new_Line [0x61]]\<rparr>, IsModified = False,
     NumLines = 1, fileformat = ''unix'', Password = ''''\<rparr>" 1]
  by simp

text \<open>
  C10. \<^verbatim>\<open>MoveLinesUp(start, end)\<close> returns the buffer as it was (lines, cached number of
  lines, modified flag and all other fields) when \<^verbatim>\<open>start < 1\<close>, \<^verbatim>\<open>start >= end\<close> or \<^verbatim>\<open>end\<close> is
  greater than the number of lines, and \<^verbatim>\<open>MoveLinesDown(start, end)\<close> does so when
  \<^verbatim>\<open>start < 0\<close>, \<^verbatim>\<open>start >= end\<close> or \<^verbatim>\<open>end >= len(b.lines) - 1\<close>, whatever \<^verbatim>\<open>Insert\<close> and
  \<^verbatim>\<open>Remove\<close> do; a range that ends at the last line is therefore never moved down.
\<close>

theorem MoveLines_guard:
  "(start < 1 \<or> start \<ge> end \<or> end > int (length (lines (LineArray b))) \<longrightarrow>
      MoveLinesUp Insert Remove b start end = Inr b) \<and>
   (start < 0 \<or> start \<ge> end \<or> end \<ge> int (length (lines (LineArray b))) - 1 \<longrightarrow>
      MoveLinesDown Insert Remove b start end = Inr b)"
  by (simp add: MoveLinesUp_def MoveLinesDown_def)

theorem MoveLines_guard_witness:
  "(2::int) \<ge> int (length (lines (LineArray
      \<lparr>LineArray = \<lparr>lines = [new_Line [0x61], new_Line [0x62], new_Line [0x63]]\<rparr>,
        IsModified = False, NumLines = 3, fileformat = ''unix'', Password = ''''\<rparr>))) - 1 \<and>
   MoveLinesDown (Buffer_insert 1)
      (\<lambda>b s e. case Buffer_remove 1 b s e of Inl err \<Rightarrow> Inl err | Inr (sub, b') \<Rightarrow> Inr b')
      \<lparr>LineArray = \<lparr>lines = [new_Line [0x61], new_Line [0x62], new_Line [0x63]]\<rparr>,
        IsModified = False, NumLines = 3, fileformat = ''unix'', Password = ''''\<rparr> 1 2 =
     Inr \<lparr>LineArray = \<lparr>lines = [new_Line [0x61], new_Line [0x62], new_Line [0x63]]\<rparr>,
        IsModified = False, NumLines = 3, fileformat = ''unix'', Password = ''''\<rparr> \<and>
   (0::int) < 1 \<and>
   MoveLinesUp (Buffer_insert 1)
      (\<lambda>b s e. case Buffer_remove 1 b s e of Inl err \<Rightarrow> Inl err | Inr (sub, b') \<Rightarrow> Inr b')
      \<lparr>LineArray = \<lparr>lines = [new_Line [0x61], new_Line [0x62], new_Line [0x63]]\<rparr>,
        IsModified = False, NumLines = 3, fileformat = ''unix'', Password = ''''\<rparr> 0 2 =
     Inr \<lparr>LineArray = \<lparr>lines = [new_Line [0x61], new_Line [0x62], new_Line [0x63]]\<rparr>,
        IsModified = False, NumLines = 3, fileformat = ''unix'', Password = ''''\<rparr>"
  using
    MoveLines_guard [of 1 2
      "\<lparr>LineArray = \<lparr>lines = [new_Line [0x61], new_Line [0x62], new_Line [0x63]]\<rparr>,
        IsModified = False, NumLines = 3, fileformat = ''unix'', Password = ''''\<rparr>"
      "Buffer_insert 1"
      "\<lambda>b s e. case Buffer_remove 1 b s e of Inl err \<Rightarrow> Inl err | Inr (sub, b') \<Rightarrow> Inr b'"]
    MoveLines_guard [of 0 2
      "\<lparr>LineArray = \<lparr>lines = [new_Line [0x61], new_Line [0x62], new_Line [0x63]]\<rparr>,
        IsModified = False, NumLines = 3, fileformat = ''unix'', Password = ''''\<rparr>"
      "Buffer_insert 1"
      "\<lambda>b s e. case Buffer_remove 1 b s e of Inl err \<Rightarrow> Inl err | Inr (sub, b') \<Rightarrow> Inr b'"]
  by simp

text \<open>
  C5, as stated, fails: \<^verbatim>\<open>NewLineArray\<close> appends the bytes read after the last line feed
  only when \<^verbatim>\<open>ReadBytes\<close> ends with \<^verbatim>\<open>io.EOF\<close>. A reader that delivers \<^verbatim>\<open>"ab"\<close> and then fails
  with another error gives a store with no line.
\<close>

theorem NewLineArray_read_error_no_line:
  "\<not> 1 \<le> length (lines (NewLineArray 0 (Some ([0x61, 0x62], ReadError))))"
  by (simp add: NewLineArray_def NewLineArray_loop_end LF_def)

text \<open>
  C5, amended. Construction without a reader or from an empty stream gives exactly one empty
  line. Construction from a stream gives at least one line exactly when the stream ends with
  \<^verbatim>\<open>io.EOF\<close> or delivers a line feed before its read fails. Whenever \<^verbatim>\<open>remove\<close> returns on a
  store whose lines hold no line feed, at least one line remains. On a buffer that holds a
  single empty line, \<^verbatim>\<open>End()\<close> is \<^verbatim>\<open>Start()\<close>, and \<^verbatim>\<open>remove(Start(), End())\<close> returns the empty
  text and the store unchanged.
\<close>

theorem at_least_one_line:
  "NewLineArray sz None = \<lparr>lines = [new_Line []]\<rparr> \<and>
   NewLineArray sz (Some ([], EOF)) = \<lparr>lines = [new_Line []]\<rparr> \<and>
   (1 \<le> length (lines (NewLineArray sz (Some (bs, e)))) \<longleftrightarrow> e = EOF \<or> LF \<in> set bs) \<and>
   (no_LF la \<and> remove d la start end = Inr (sub, la') \<longrightarrow> 1 \<le> length (lines la')) \<and>
   (lines (LineArray b) = [l] \<and> data l = [] \<and> NumLines b = 1 \<longrightarrow>
      End b = Inr (Start b) \<and>
      remove d (LineArray b) (Start b) (Start b) = Inr ([], LineArray b))"
proof (intro conjI impI)
  show "NewLineArray sz None = \<lparr>lines = [new_Line []]\<rparr>"
    by (simp add: NewLineArray_def)
  show "NewLineArray sz (Some ([], EOF)) = \<lparr>lines = [new_Line []]\<rparr>"
    by (simp add: NewLineArray_def NewLineArray_empty)
  have "NewLineArray_loop [] (bs, e) \<noteq> [] \<longleftrightarrow> e = EOF \<or> LF \<in> set bs"
    using NewLineArray_loop_empty_iff [of "[]" bs e] by (cases e) simp_all
  then show "1 \<le> length (lines (NewLineArray sz (Some (bs, e)))) \<longleftrightarrow> e = EOF \<or> LF \<in> set bs"
    by (simp add: NewLineArray_def Suc_le_eq)
next
  assume "no_LF la \<and> remove d la start end = Inr (sub, la')"
  then show "1 \<le> length (lines la')"
    using remove_keeps_a_line by blast
next
  assume b: "lines (LineArray b) = [l] \<and> data l = [] \<and> NumLines b = 1"
  then show "End b = Inr (Start b)"
    by (simp add: End_def Start_def line_ok_def line_at_def)
  have "set_line (LineArray b) 0 (l\<lparr>data := []\<rparr>) = LineArray b"
    using b by (simp add: set_line_def)
  with b show "remove d (LineArray b) (Start b) (Start b) = Inr ([], LineArray b)"
    by (simp add: remove_def Substr_def Start_def line_ok_def line_at_def)
qed

theorem at_least_one_line_witness:
  "1 \<le> length (lines (NewLineArray 0 (Some ([0x61, 0x0A, 0x62], ReadError)))) \<and>
   no_LF \<lparr>lines = [new_Line [0x61, 0x62], new_Line [0x63]]\<rparr> \<and>
   remove 0 \<lparr>lines = [new_Line [0x61, 0x62], new_Line [0x63]]\<rparr> \<lparr>X = 1, Y = 0\<rparr> \<lparr>X = 1, Y = 1\<rparr>
     = Inr ([0x62, 0x0A, 0x63], \<lparr>lines = [new_Line [0x61]]\<rparr>) \<and>
   1 \<le> length (lines \<lparr>lines = [new_Line [0x61]]\<rparr>) \<and>
   End \<lparr>LineArray = \<lparr>lines = [new_Line []]\<rparr>, IsModified = False, NumLines = 1,
        fileformat = ''unix'', Password = ''''\<rparr> = Inr \<lparr>X = 0, Y = 0\<rparr> \<and>
   remove 0 \<lparr>lines = [new_Line []]\<rparr> \<lparr>X = 0, Y = 0\<rparr> \<lparr>X = 0, Y = 0\<rparr>
     = Inr ([], \<lparr>lines = [new_Line []]\<rparr>)"
proof -
  let ?la = "\<lparr>lines = [new_Line [0x61, 0x62], new_Line [0x63]]\<rparr>"
  let ?b = "\<lparr>LineArray = \<lparr>lines = [new_Line []]\<rparr>, IsModified = False, NumLines = 1,
        fileformat = ''unix'', Password = ''''\<rparr>"
  have h0: "ReadError = EOF \<or> LF \<in> set [0x61, 0x0A, 0x62]" by (simp add: LF_def)
  have h1: "no_LF ?la" by (simp add: no_LF_def new_Line_def LF_def)
  have r1: "runeToByteIndex 1 [0x61, 0x62] = 1" and r2: "runeToByteIndex 1 [0x63] = 1"
    and r3: "runeToByteIndex 1 [0x61] = 1"
    by code_simp+
  have h2: "remove 0 ?la \<lparr>X = 1, Y = 0\<rparr> \<lparr>X = 1, Y = 1\<rparr>
      = Inr ([0x62, 0x0A, 0x63], \<lparr>lines = [new_Line [0x61]]\<rparr>)"
    by (simp add: remove_def Substr_def line_ok_def line_at_def new_Line_def r1 r2 r3 LF_def
        remove_loop.simps DeleteToEnd_def DeleteFromStart_def JoinLines_def insert.simps
        DeleteLine_def set_line_def)
  have h3: "lines (LineArray ?b) = [new_Line []] \<and> data (new_Line []) = [] \<and> NumLines ?b = 1"
    by (simp add: new_Line_def)
  note t = at_least_one_line [of 0 "[0x61, 0x0A, 0x62]" ReadError ?la 0 "\<lparr>X = 1, Y = 0\<rparr>"
      "\<lparr>X = 1, Y = 1\<rparr>" "[0x62, 0x0A, 0x63]" "\<lparr>lines = [new_Line [0x61]]\<rparr>" ?b "new_Line []"]
  from t h0 have "1 \<le> length (lines (NewLineArray 0 (Some ([0x61, 0x0A, 0x62], ReadError))))"
    by blast
  moreover from t h1 h2 have "1 \<le> length (lines \<lparr>lines = [new_Line [0x61]]\<rparr>)" by blast
  moreover from t h3 have "End ?b = Inr (Start ?b)"
    "remove 0 (LineArray ?b) (Start ?b) (Start ?b) = Inr ([], LineArray ?b)" by blast+
  ultimately show ?thesis using h1 h2 by (simp add: Start_def)
qed




text \<open>
  C6, as stated, fails for \<^verbatim>\<open>Encode\<close> when the buffer's \<^verbatim>\<open>fileformat\<close> setting is
  \<^verbatim>\<open>"dos"\<close>: the stored lines of the text \<^verbatim>\<open>"a\r\nb"\<close> keep the carriage return, and
  \<^verbatim>\<open>Encode\<close> writes CR LF between the lines, so the result is \<^verbatim>\<open>"a\r\r\nb"\<close>.
\<close>

theorem Encode_dos_not_inverse:
  "Encode ''.asc''
     \<lparr>LineArray = NewLineArray 0 (Some ([0x61, 0x0D, 0x0A, 0x62], EOF)), IsModified = False,
       NumLines = 2, fileformat = ''dos'', Password = ''''\<rparr> ''a.txt''
   = Plain [0x61, 0x0D, 0x0D, 0x0A, 0x62]"
proof -
  have "NewLineArray_loop [] ([0x61, 0x0D] @ LF # [0x62], EOF)
      = new_Line [0x61, 0x0D] # NewLineArray_loop [] ([0x62], EOF)"
    by (rule NewLineArray_loop_Cons) (simp add: LF_def)
  moreover have "NewLineArray_loop [] ([0x62], EOF) = [new_Line [0x62]]"
    by (simp add: NewLineArray_loop_end LF_def)
  ultimately have "lines (NewLineArray 0 (Some ([0x61, 0x0D, 0x0A, 0x62], EOF)))
      = [new_Line [0x61, 0x0D], new_Line [0x62]]"
    by (simp add: NewLineArray_def LF_def)
  then show ?thesis
    by (simp add: Encode_join new_Line_def CR_def LF_def)
qed

text \<open>
  C6, amended. For every byte sequence \<open>T\<close>, whatever its line endings, the store built from
  \<open>T\<close> serialises back to \<open>T\<close> with \<^verbatim>\<open>String\<close>, and with \<^verbatim>\<open>Encode\<close> when the buffer has no
  password and its \<^verbatim>\<open>fileformat\<close> setting is not \<^verbatim>\<open>"dos"\<close>.
\<close>

theorem load_serialize_roundtrip:
  "String (NewLineArray sz (Some (T, EOF))) = T \<and>
   (LineArray b = NewLineArray sz (Some (T, EOF)) \<and> Password b = [] \<and> fileformat b \<noteq> ''dos'' \<longrightarrow>
      Encode ext b filename = Plain T)"
  by (simp add: String_join Encode_join NewLineArray_def join_NewLineArray_loop)

theorem load_serialize_roundtrip_witness:
  "String (NewLineArray 0 (Some ([0x61, 0x0D, 0x0A, 0x62], EOF))) = [0x61, 0x0D, 0x0A, 0x62] \<and>
   Encode ''.asc''
     \<lparr>LineArray = NewLineArray 0 (Some ([0x61, 0x0D, 0x0A, 0x62], EOF)), IsModified = False,
       NumLines = 2, fileformat = ''unix'', Password = ''''\<rparr> ''a.txt''
   = Plain [0x61, 0x0D, 0x0A, 0x62]"
  using load_serialize_roundtrip [of 0 "[0x61, 0x0D, 0x0A, 0x62]"
      "\<lparr>LineArray = NewLineArray 0 (Some ([0x61, 0x0D, 0x0A, 0x62], EOF)), IsModified = False,
         NumLines = 2, fileformat = ''unix'', Password = ''''\<rparr>" "''.asc''" "''a.txt''"]
  by simp

text \<open>
  C7. On a store whose lines hold no line feed, for every valid location \<^verbatim>\<open>pos\<close> and every
  \<^verbatim>\<open>value\<close>, \<^verbatim>\<open>insert(pos, value)\<close> returns. With \<open>x\<close> the byte offset of column \<^verbatim>\<open>pos.X\<close> (the
  bytes before it hold \<^verbatim>\<open>pos.X\<close> runes), line \<^verbatim>\<open>pos.Y\<close> is replaced by the lines into which the
  line feeds cut the old bytes before \<open>x\<close>, then \<^verbatim>\<open>value\<close>, then the old bytes from \<open>x\<close>; the
  other lines keep their bytes. A \<^verbatim>\<open>value\<close> without a line feed changes only the bytes of
  line \<^verbatim>\<open>pos.Y\<close>. For a \<^verbatim>\<open>value\<close> that is \<open>v1\<close>, a line feed and \<open>v2\<close>, with no line feed in
  \<open>v1\<close>, the result is that of inserting \<open>v1\<close>, calling \<^verbatim>\<open>Split\<close> at the position reached
  after \<open>v1\<close>, and inserting \<open>v2\<close> at column 0 of the line below.
\<close>

theorem insert_effect:
  assumes "no_LF la" and "valid_loc la pos"
  shows "\<exists>la'. insert (Suc d) la pos value = Inr la' \<and>
     int (RuneCount (take (nat (runeToByteIndex (X pos) (data (line_at la (Y pos)))))
       (data (line_at la (Y pos))))) = X pos \<and>
     map data (lines la') = take (nat (Y pos)) (map data (lines la))
       @ map data (lines (NewLineArray sz (Some
           (take (nat (runeToByteIndex (X pos) (data (line_at la (Y pos))))) (data (line_at la (Y pos)))
            @ value
            @ drop (nat (runeToByteIndex (X pos) (data (line_at la (Y pos))))) (data (line_at la (Y pos))),
            EOF))))
       @ drop (Suc (nat (Y pos))) (map data (lines la)) \<and>
     (LF \<notin> set value \<longrightarrow>
        lines la' = (lines la)[nat (Y pos) := (line_at la (Y pos))\<lparr>data :=
           take (nat (runeToByteIndex (X pos) (data (line_at la (Y pos))))) (data (line_at la (Y pos)))
           @ value
           @ drop (nat (runeToByteIndex (X pos) (data (line_at la (Y pos))))) (data (line_at la (Y pos)))\<rparr>]) \<and>
     (\<forall>v1 v2. value = v1 @ LF # v2 \<and> LF \<notin> set v1 \<longrightarrow>
        (\<exists>la1 la2. insert (Suc d) la pos v1 = Inr la1 \<and>
           Split (Suc d) la1 \<lparr>X = runeToByteIndex (X pos) (data (line_at la (Y pos))) + int (length v1),
              Y = Y pos\<rparr> = Inr la2 \<and>
           insert (Suc d) la pos value = insert (Suc d) la2 \<lparr>X = 0, Y = Y pos + 1\<rparr> v2))"
proof -
  have ok: "line_ok la (Y pos)" and xr: "0 \<le> X pos" "X pos \<le> int (RuneCount (data (line_at la (Y pos))))"
    using assms(2) by (simp_all add: valid_loc_def)
  have inv: "LF \<notin> set (data (line_at la (Y pos)))"
    using assms(1) ok by (rule no_LF_line)
  define x where "x = runeToByteIndex (X pos) (data (line_at la (Y pos)))"
  have xb: "0 \<le> x" "x \<le> int (length (data (line_at la (Y pos))))"
    using runeToByteIndex_bounds [of "X pos" "data (line_at la (Y pos))"] by (simp_all add: x_def)
  from insert_loop_lines [OF inv ok xb, of d "value"]
  obtain la' where la': "insert (Suc d) la pos value = Inr la'"
    "map data (lines la') = take (nat (Y pos)) (map data (lines la))
       @ map data (NewLineArray_loop []
           (take (nat x) (data (line_at la (Y pos))) @ value @ drop (nat x) (data (line_at la (Y pos))), EOF))
       @ drop (Suc (nat (Y pos))) (map data (lines la))"
    using ok by (auto simp: insert.simps x_def)
  have "LF \<notin> set value \<longrightarrow>
        lines la' = (lines la)[nat (Y pos) := (line_at la (Y pos))\<lparr>data :=
           take (nat x) (data (line_at la (Y pos))) @ value @ drop (nat x) (data (line_at la (Y pos)))\<rparr>]"
    using insert_no_LF [OF _ ok, of "value" "Suc d"] la'(1) by (auto simp: x_def)
  moreover have "int (RuneCount (take (nat x) (data (line_at la (Y pos))))) = X pos"
    unfolding x_def using xr by (rule runeToByteIndex_RuneCount)
  moreover have "\<forall>v1 v2. value = v1 @ LF # v2 \<and> LF \<notin> set v1 \<longrightarrow>
        (\<exists>la1 la2. insert (Suc d) la pos v1 = Inr la1 \<and>
           Split (Suc d) la1 \<lparr>X = x + int (length v1), Y = Y pos\<rparr> = Inr la2 \<and>
           insert (Suc d) la pos value = insert (Suc d) la2 \<lparr>X = 0, Y = Y pos + 1\<rparr> v2)"
    using insert_LF_step [OF inv ok, of _ d] by (auto simp: x_def)
  ultimately show ?thesis
    using la' unfolding x_def by (simp add: NewLineArray_def)
qed

theorem insert_effect_witness:
  "no_LF \<lparr>lines = [new_Line [0x68, 0xC3, 0xA9, 0x6C, 0x6C, 0x6F], new_Line [0x77, 0x6F, 0x72, 0x6C, 0x64]]\<rparr> \<and>
   valid_loc \<lparr>lines = [new_Line [0x68, 0xC3, 0xA9, 0x6C, 0x6C, 0x6F], new_Line [0x77, 0x6F, 0x72, 0x6C, 0x64]]\<rparr>
     \<lparr>X = 1, Y = 0\<rparr> \<and>
   insert (Suc 0)
     \<lparr>lines = [new_Line [0x68, 0xC3, 0xA9, 0x6C, 0x6C, 0x6F], new_Line [0x77, 0x6F, 0x72, 0x6C, 0x64]]\<rparr>
     \<lparr>X = 1, Y = 0\<rparr> [0x58]
   = Inr \<lparr>lines = [new_Line [0x68, 0x58, 0xC3, 0xA9, 0x6C, 0x6C, 0x6F],
        new_Line [0x77, 0x6F, 0x72, 0x6C, 0x64]]\<rparr>"
proof -
  let ?la = "\<lparr>lines = [new_Line [0x68, 0xC3, 0xA9, 0x6C, 0x6C, 0x6F],
    new_Line [0x77, 0x6F, 0x72, 0x6C, 0x64]]\<rparr>"
  let ?pos = "\<lparr>X = 1, Y = 0\<rparr>"
  have h1: "no_LF ?la" by (simp add: no_LF_def new_Line_def LF_def)
  have h2: "valid_loc ?la ?pos" by code_simp
  have r: "runeToByteIndex 1 [0x68, 0xC3, 0xA9, 0x6C, 0x6C, 0x6F] = 1" by code_simp
  have v: "LF \<notin> set [0x58]" by (simp add: LF_def)
  from insert_effect [OF h1 h2, of 0 "[0x58]" 0] v
  obtain la' where "insert (Suc 0) ?la ?pos [0x58] = Inr la'"
    "lines la' = [new_Line [0x68, 0x58, 0xC3, 0xA9, 0x6C, 0x6C, 0x6F],
        new_Line [0x77, 0x6F, 0x72, 0x6C, 0x64]]"
    by (auto simp: line_at_def new_Line_def r)
  then show ?thesis using h1 h2 by (cases la') simp
qed

text \<open>
  C8. On a buffer whose cached number of lines is the number of its lines, whenever
  \<^verbatim>\<open>FindMatchingBrace\<close> from a location \<open>s\<close> returns another location \<open>e\<close>, \<open>e\<close> is a location
  of the buffer that holds the other rune of the pair, and \<^verbatim>\<open>FindMatchingBrace\<close> from \<open>e\<close>
  returns \<open>s\<close>: forward from an opening rune and backward from the closing rune found, and
  the other way round. From every location that holds a rune the function returns. It
  returns the start location itself when the start holds neither rune of the pair, when it
  holds the opening rune and no rune from there to the end of the buffer balances it, and
  when it holds the closing rune and no rune from there back to the beginning of the buffer
  balances it.
\<close>

theorem FindMatchingBrace_symmetric:
  assumes "NumLines b = int (length (lines (LineArray b)))"
  shows "(FindMatchingBrace b (opn, cls) s = Inr e \<and> e \<noteq> s \<longrightarrow>
        FindMatchingBrace b (opn, cls) e = Inr s \<and> cell_ok b e \<and>
        (rune_at b s = opn \<longrightarrow> rune_at b e = cls) \<and>
        (rune_at b s \<noteq> opn \<longrightarrow> rune_at b s = cls \<and> rune_at b e = opn)) \<and>
     (cell_ok b s \<longrightarrow> (\<exists>e'. FindMatchingBrace b (opn, cls) s = Inr e')) \<and>
     (cell_ok b s \<and> rune_at b s \<noteq> opn \<and> rune_at b s \<noteq> cls \<longrightarrow>
        FindMatchingBrace b (opn, cls) s = Inr s) \<and>
     (cell_ok b s \<and> rune_at b s = opn \<and> (\<forall>k. \<not> balances opn cls (runes_after b s) k) \<longrightarrow>
        FindMatchingBrace b (opn, cls) s = Inr s) \<and>
     (cell_ok b s \<and> rune_at b s = cls \<and> cls \<noteq> opn \<and>
        (\<forall>k. \<not> balances cls opn (runes_before b s) k) \<longrightarrow>
        FindMatchingBrace b (opn, cls) s = Inr s)"
proof -
  have p1: "FindMatchingBrace b (opn, cls) s = Inr e \<and> e \<noteq> s \<longrightarrow>
        FindMatchingBrace b (opn, cls) e = Inr s \<and> cell_ok b e \<and>
        (rune_at b s = opn \<longrightarrow> rune_at b e = cls) \<and>
        (rune_at b s \<noteq> opn \<longrightarrow> rune_at b s = cls \<and> rune_at b e = opn)"
    using matching_brace_symmetry [OF assms, of opn cls s e] by blast
  have p2: "cell_ok b s \<longrightarrow> (\<exists>e'. FindMatchingBrace b (opn, cls) s = Inr e')"
    using FindMatchingBrace_result [OF assms, of s opn cls] by auto
  have p3: "cell_ok b s \<and> rune_at b s \<noteq> opn \<and> rune_at b s \<noteq> cls \<longrightarrow>
        FindMatchingBrace b (opn, cls) s = Inr s"
    using FindMatchingBrace_result [OF assms, of s opn cls] by auto
  have p4: "cell_ok b s \<and> rune_at b s = opn \<and> (\<forall>k. \<not> balances opn cls (runes_after b s) k) \<longrightarrow>
        FindMatchingBrace b (opn, cls) s = Inr s"
    using FindMatchingBrace_unbalanced(1) [OF assms, of s opn cls] by blast
  have p5: "cell_ok b s \<and> rune_at b s = cls \<and> cls \<noteq> opn \<and>
        (\<forall>k. \<not> balances cls opn (runes_before b s) k) \<longrightarrow>
        FindMatchingBrace b (opn, cls) s = Inr s"
    using FindMatchingBrace_unbalanced(2) [OF assms, of s cls opn] by blast
  show ?thesis
    by (rule conjI [OF p1 conjI [OF p2 conjI [OF p3 conjI [OF p4 p5]]]])
qed

theorem FindMatchingBrace_symmetric_witness:
  "FindMatchingBrace
     \<lparr>LineArray = \<lparr>lines = [new_Line [0x28, 0x61, 0x28], new_Line [0x62, 0x29, 0x63, 0x29]]\<rparr>,
       IsModified = False, NumLines = 2, fileformat = ''unix'', Password = ''''\<rparr>
     (0x28, 0x29) \<lparr>X = 0, Y = 0\<rparr> = Inr \<lparr>X = 3, Y = 1\<rparr> \<and>
   FindMatchingBrace
     \<lparr>LineArray = \<lparr>lines = [new_Line [0x28, 0x61, 0x28], new_Line [0x62, 0x29, 0x63, 0x29]]\<rparr>,
       IsModified = False, NumLines = 2, fileformat = ''unix'', Password = ''''\<rparr>
     (0x28, 0x29) \<lparr>X = 3, Y = 1\<rparr> = Inr \<lparr>X = 0, Y = 0\<rparr>"
proof -
  let ?b = "\<lparr>LineArray = \<lparr>lines = [new_Line [0x28, 0x61, 0x28], new_Line [0x62, 0x29, 0x63, 0x29]]\<rparr>,
       IsModified = False, NumLines = 2, fileformat = ''unix'', Password = ''''\<rparr>"
  have h1: "NumLines ?b = int (length (lines (LineArray ?b)))" by simp
  have h2: "FindMatchingBrace ?b (0x28, 0x29) \<lparr>X = 0, Y = 0\<rparr> = Inr \<lparr>X = 3, Y = 1\<rparr>"
    by code_simp
  have h3: "\<lparr>X = 3, Y = 1\<rparr> \<noteq> \<lparr>X = 0, Y = (0::int)\<rparr>" by simp
  from FindMatchingBrace_symmetric [OF h1, of "0x28" "0x29" "\<lparr>X = 0, Y = 0\<rparr>" "\<lparr>X = 3, Y = 1\<rparr>"] h2 h3
  have "FindMatchingBrace ?b (0x28, 0x29) \<lparr>X = 3, Y = 1\<rparr> = Inr \<lparr>X = 0, Y = 0\<rparr>"
    by blast
  with h2 show ?thesis by simp
qed

end
